theory Spec2Isabelle
  imports Main
begin

section \<open>Values, objects and the heap\<close>

text \<open>
  The store of \<^verbatim>\<open>vanilla.ts\<close> (\<^verbatim>\<open>createStoreImpl\<close>) compares snapshots with
  \<^verbatim>\<open>Object.is\<close> and builds merged snapshots with \<^verbatim>\<open>Object.assign({}, state, nextState)\<close>,
  so the model keeps object identity: an object value is a reference into a heap of
  property maps, and \<^verbatim>\<open>Object.is\<close> is equality of values (of the address, for objects).
  Numbers are modelled by integers; \<^verbatim>\<open>Object.is\<close> on numbers is the identity of the number.
  A function value is an identifier \<open>Fn f\<close>; the bodies of functions are given by an
  environment (see \<open>code\<close> below). Function values carry no own enumerable property.
\<close>

type_synonym addr = nat
type_synonym fid = nat

datatype jsval =
    Undefined
  | Null
  | Bool bool
  | Num int
  | Str string
  | Fn fid
  | Obj addr

type_synonym props = "string \<rightharpoonup> jsval"

record heap =
  cells :: "addr \<rightharpoonup> props"
  fresh :: addr

definition typeof :: "jsval \<Rightarrow> string" where
  "typeof v =
     (case v of
        Undefined \<Rightarrow> ''undefined''
      | Null \<Rightarrow> ''object''
      | Bool b \<Rightarrow> ''boolean''
      | Num n \<Rightarrow> ''number''
      | Str s \<Rightarrow> ''string''
      | Fn f \<Rightarrow> ''function''
      | Obj a \<Rightarrow> ''object'')"

text \<open>Decimal property keys \<^verbatim>\<open>"0"\<close>, \<^verbatim>\<open>"1"\<close>, ... of the characters of a string.\<close>

definition digit :: "nat \<Rightarrow> char" where
  "digit d = ''0123456789'' ! d"

fun decimal :: "nat \<Rightarrow> string" where
  "decimal n = (if n < 10 then [digit n] else decimal (n div 10) @ [digit (n mod 10)])"

declare decimal.simps [simp del]

definition index_props :: "string \<Rightarrow> props" where
  "index_props s = map_of (zip (map decimal [0..<length s]) (map (\<lambda>c. Str [c]) s))"

text \<open>
  The own enumerable properties that \<^verbatim>\<open>Object.assign\<close> copies from a source:
  none for \<^verbatim>\<open>undefined\<close> and \<^verbatim>\<open>null\<close> (skipped), none for a wrapped boolean or number,
  the indexed characters of a wrapped string, the properties of an object.
\<close>

definition own_props :: "heap \<Rightarrow> jsval \<Rightarrow> props" where
  "own_props h v =
     (case v of
        Obj a \<Rightarrow> (case cells h a of Some ps \<Rightarrow> ps | None \<Rightarrow> Map.empty)
      | Str s \<Rightarrow> index_props s
      | _ \<Rightarrow> Map.empty)"

text \<open>An object literal: a new object at the next free address.\<close>

definition new_object :: "props \<Rightarrow> heap \<Rightarrow> addr \<times> heap" where
  "new_object ps h = (fresh h, h\<lparr>cells := (cells h)(fresh h \<mapsto> ps), fresh := Suc (fresh h)\<rparr>)"

text \<open>
  \<^verbatim>\<open>Object.assign(target, ...sources)\<close>: the sources are read in order and their own
  enumerable properties written to the target object, later writes winning.
\<close>

definition assign_from :: "addr \<Rightarrow> jsval \<Rightarrow> heap \<Rightarrow> heap" where
  "assign_from t src h = h\<lparr>cells := (cells h)(t \<mapsto> own_props h (Obj t) ++ own_props h src)\<rparr>"

definition Object_assign :: "addr \<Rightarrow> jsval list \<Rightarrow> heap \<Rightarrow> heap" where
  "Object_assign t srcs h = fold (assign_from t) srcs h"

section \<open>The store\<close>

text \<open>
  The closure variables of \<^verbatim>\<open>createStoreImpl\<close>: \<^verbatim>\<open>let state\<close>, \<^verbatim>\<open>const initialState\<close>
  (unset until the initializer has returned) and \<^verbatim>\<open>const listeners = new Set()\<close>.
  The set is the list of its entries in insertion order, a deleted entry leaving an empty
  slot, as \<^verbatim>\<open>Set.prototype.forEach\<close> sees it when the set changes under it.
  The heap is the program's, and \<open>trace\<close> records the calls between the store and the
  program's functions, in order.
\<close>

datatype event =
    InitializerCalled
  | ListenerCalled fid jsval jsval
  | Subscribed fid
  | Unsubscribed fid

record world =
  state :: jsval
  initialState :: "jsval option"
  listeners :: "fid option list"
  heap :: heap
  trace :: "event list"

datatype exn = ReferenceError | Thrown jsval

datatype outcome = Ret jsval world | Exc exn world

text \<open>
  What a function of the program (an initializer, an updater, a listener) does when it
  is called: it returns or throws, may create objects, look at what it can reach, and
  call the store's four operations and the closures \<^verbatim>\<open>subscribe\<close> returned. A call of
  \<^verbatim>\<open>setState\<close> hands its continuation \<open>None\<close> when it returns and \<open>Some e\<close> when it
  throws \<open>e\<close> (which the caller may catch, or throw again). A \<^verbatim>\<open>ReferenceError\<close> of
  \<^verbatim>\<open>getInitialState()\<close>, called before \<^verbatim>\<open>initialState\<close> is set, ends the function
  that called it. No command writes a property of an existing object: snapshots are
  treated as immutable by the functions of the program, and the store itself writes
  only to the object \<^verbatim>\<open>{}\<close> it has just created.
\<close>

datatype prog =
    Return jsval
  | Throw exn
  | New props "jsval \<Rightarrow> prog"
  | Look "world \<Rightarrow> prog"
  | CallSetState jsval "bool option" "exn option \<Rightarrow> prog"
  | CallGetState "jsval \<Rightarrow> prog"
  | CallGetInitialState "jsval \<Rightarrow> prog"
  | CallSubscribe fid prog
  | CallUnsubscribe fid prog

type_synonym code = "fid \<Rightarrow> jsval list \<Rightarrow> prog"

subsection \<open>The listener set\<close>

definition Set_add :: "fid \<Rightarrow> fid option list \<Rightarrow> fid option list" where
  "Set_add l es = (if Some l \<in> set es then es else es @ [Some l])"

definition Set_delete :: "fid \<Rightarrow> fid option list \<Rightarrow> fid option list" where
  "Set_delete l es = map (\<lambda>e. if e = Some l then None else e) es"

definition registered :: "world \<Rightarrow> fid set" where
  "registered w = {l. Some l \<in> set (listeners w)}"

subsection \<open>getState, getInitialState, subscribe\<close>

definition getState :: "world \<Rightarrow> jsval" where
  "getState w = state w"

definition getInitialState :: "world \<Rightarrow> exn + jsval" where
  "getInitialState w = (case initialState w of None \<Rightarrow> Inl ReferenceError | Some v \<Rightarrow> Inr v)"

text \<open>The closure \<^verbatim>\<open>() => listeners.delete(listener)\<close>; it returns what \<^verbatim>\<open>delete\<close> returns.\<close>

definition unsubscribe :: "fid \<Rightarrow> world \<Rightarrow> bool \<times> world" where
  "unsubscribe listener w =
     (Some listener \<in> set (listeners w),
      w\<lparr>listeners := Set_delete listener (listeners w), trace := trace w @ [Unsubscribed listener]\<rparr>)"

definition subscribe :: "fid \<Rightarrow> world \<Rightarrow> (world \<Rightarrow> bool \<times> world) \<times> world" where
  "subscribe listener w =
     (unsubscribe listener,
      w\<lparr>listeners := Set_add listener (listeners w), trace := trace w @ [Subscribed listener]\<rparr>)"

subsection \<open>setState\<close>

text \<open>
  The new value of \<^verbatim>\<open>state\<close>, lines 230 to 233:
  \<^verbatim>\<open>(replace ?? (typeof nextState !== 'object' || nextState === null))
     ? nextState : Object.assign({}, state, nextState)\<close>.
  \<open>replace\<close> is \<open>None\<close> when the argument is omitted.
\<close>

definition assign_state :: "jsval \<Rightarrow> bool option \<Rightarrow> world \<Rightarrow> world" where
  "assign_state nextState replace w =
     (if (case replace of
            Some b \<Rightarrow> b
          | None \<Rightarrow> typeof nextState \<noteq> ''object'' \<or> nextState = Null)
      then w\<lparr>state := nextState\<rparr>
      else (let (a, h) = new_object Map.empty (heap w)
            in w\<lparr>state := Obj a, heap := Object_assign a [state w, nextState] h\<rparr>))"

text \<open>
  Running a function body, \<^verbatim>\<open>setState\<close> and \<^verbatim>\<open>listeners.forEach\<close> call each other
  (a listener may call \<^verbatim>\<open>setState\<close>), and need not come to an end, so they take fuel:
  \<open>None\<close> is "no result within the fuel".
\<close>

fun exec :: "code \<Rightarrow> nat \<Rightarrow> prog \<Rightarrow> world \<Rightarrow> outcome option"
and setState :: "code \<Rightarrow> nat \<Rightarrow> jsval \<Rightarrow> bool option \<Rightarrow> world \<Rightarrow> outcome option"
and forEach :: "code \<Rightarrow> nat \<Rightarrow> nat \<Rightarrow> jsval \<Rightarrow> world \<Rightarrow> outcome option"
where
  "exec code 0 p w = None"
| "exec code (Suc n) (Return v) w = Some (Ret v w)"
| "exec code (Suc n) (Throw e) w = Some (Exc e w)"
| "exec code (Suc n) (New ps k) w =
     (let (a, h) = new_object ps (heap w) in exec code n (k (Obj a)) (w\<lparr>heap := h\<rparr>))"
| "exec code (Suc n) (Look k) w = exec code n (k w) w"
| "exec code (Suc n) (CallSetState partial replace k) w =
     (case setState code n partial replace w of
        None \<Rightarrow> None
      | Some (Ret _ w') \<Rightarrow> exec code n (k None) w'
      | Some (Exc e w') \<Rightarrow> exec code n (k (Some e)) w')"
| "exec code (Suc n) (CallGetState k) w = exec code n (k (getState w)) w"
| "exec code (Suc n) (CallGetInitialState k) w =
     (case getInitialState w of
        Inl e \<Rightarrow> Some (Exc e w)
      | Inr v \<Rightarrow> exec code n (k v) w)"
| "exec code (Suc n) (CallSubscribe l k) w = exec code n k (snd (subscribe l w))"
| "exec code (Suc n) (CallUnsubscribe l k) w = exec code n k (snd (unsubscribe l w))"
| "setState code 0 partial replace w = None"
| "setState code (Suc n) partial replace w =
     (case (case partial of
              Fn f \<Rightarrow> exec code n (code f [state w]) w
            | _ \<Rightarrow> Some (Ret partial w)) of
        None \<Rightarrow> None
      | Some (Exc e w1) \<Rightarrow> Some (Exc e w1)
      | Some (Ret nextState w1) \<Rightarrow>
          if nextState \<noteq> state w1
          then (let previousState = state w1
                in forEach code n 0 previousState (assign_state nextState replace w1))
          else Some (Ret Undefined w1))"
| "forEach code 0 index previousState w = None"
| "forEach code (Suc n) index previousState w =
     (if index < length (listeners w)
      then (case listeners w ! index of
              None \<Rightarrow> forEach code n (Suc index) previousState w
            | Some listener \<Rightarrow>
                (case exec code n (code listener [state w, previousState])
                        (w\<lparr>trace := trace w @ [ListenerCalled listener (state w) previousState]\<rparr>) of
                   None \<Rightarrow> None
                 | Some (Exc e w') \<Rightarrow> Some (Exc e w')
                 | Some (Ret _ w') \<Rightarrow> forEach code n (Suc index) previousState w'))
      else Some (Ret Undefined w))"

subsection \<open>createStoreImpl\<close>

text \<open>
  The handle \<^verbatim>\<open>const api = { setState, getState, getInitialState, subscribe }\<close>: the
  four operations of the store.
\<close>

record api =
  api_setState :: "nat \<Rightarrow> jsval \<Rightarrow> bool option \<Rightarrow> world \<Rightarrow> outcome option"
  api_getState :: "world \<Rightarrow> jsval"
  api_getInitialState :: "world \<Rightarrow> exn + jsval"
  api_subscribe :: "fid \<Rightarrow> world \<Rightarrow> (world \<Rightarrow> bool \<times> world) \<times> world"

datatype created = Created api world | Failed exn world

text \<open>
  \<^verbatim>\<open>const initialState = (state = createState(setState, getState, api))\<close>: the
  initializer runs on the store whose \<^verbatim>\<open>state\<close> is still \<^verbatim>\<open>undefined\<close> and whose
  \<^verbatim>\<open>initialState\<close> is not yet set, with the store's operations at hand (its three
  arguments); what it returns is assigned to both variables, and the handle is returned.
  \<open>h\<close> and \<open>tr\<close> are the program's heap and the calls recorded so far.
\<close>

definition new_store :: "heap \<Rightarrow> event list \<Rightarrow> world" where
  "new_store h tr = \<lparr>state = Undefined, initialState = None, listeners = [], heap = h, trace = tr\<rparr>"

definition createStoreImpl :: "code \<Rightarrow> nat \<Rightarrow> prog \<Rightarrow> heap \<Rightarrow> event list \<Rightarrow> created option" where
  "createStoreImpl code n createState h tr =
     (let api = \<lparr>api_setState = setState code, api_getState = getState,
                 api_getInitialState = getInitialState, api_subscribe = subscribe\<rparr>
      in case exec code n createState (new_store h (tr @ [InitializerCalled])) of
           None \<Rightarrow> None
         | Some (Exc e w) \<Rightarrow> Some (Failed e w)
         | Some (Ret v w) \<Rightarrow> Some (Created api (w\<lparr>state := v, initialState := Some v\<rparr>)))"

subsection \<open>Derived notions used in the statements\<close>

text \<open>The candidate of a call, lines 216 to 219: \<^verbatim>\<open>partial(state)\<close> for a function, else \<^verbatim>\<open>partial\<close>.\<close>

definition candidate :: "code \<Rightarrow> nat \<Rightarrow> jsval \<Rightarrow> world \<Rightarrow> outcome option" where
  "candidate code n partial w =
     (case partial of
        Fn f \<Rightarrow> exec code n (code f [state w]) w
      | _ \<Rightarrow> Some (Ret partial w))"

fun world_of :: "outcome \<Rightarrow> world" where
  "world_of (Ret v w) = w"
| "world_of (Exc e w) = w"

text \<open>A sequence of \<^verbatim>\<open>setState\<close> calls made one after the other; it stops at a call that throws.\<close>

fun setStates :: "code \<Rightarrow> nat \<Rightarrow> (jsval \<times> bool option) list \<Rightarrow> world \<Rightarrow> outcome option" where
  "setStates code n [] w = Some (Ret Undefined w)"
| "setStates code n ((partial, replace) # calls) w =
     (case setState code n partial replace w of
        None \<Rightarrow> None
      | Some (Exc e w') \<Rightarrow> Some (Exc e w')
      | Some (Ret _ w') \<Rightarrow> setStates code n calls w')"

text \<open>The calls recorded between two worlds.\<close>

definition events_since :: "world \<Rightarrow> world \<Rightarrow> event list" where
  "events_since w w' = drop (length (trace w)) (trace w')"

text \<open>A value that is not a reference, or refers to an object that has been created.\<close>

definition allocated :: "heap \<Rightarrow> jsval \<Rightarrow> bool" where
  "allocated h v = (case v of Obj a \<Rightarrow> a < fresh h | _ \<Rightarrow> True)"

text \<open>The heap \<open>h'\<close> has every object of \<open>h\<close>, with the properties it has in \<open>h\<close>.\<close>

definition heap_le :: "heap \<Rightarrow> heap \<Rightarrow> bool" where
  "heap_le h h' = (fresh h \<le> fresh h' \<and> (\<forall>a<fresh h. cells h' a = cells h a))"

text \<open>The places a function body can come to, whatever its calls return.\<close>

inductive_set nodes :: "prog \<Rightarrow> prog set" for p :: prog where
  self: "p \<in> nodes p"
| after_New: "New ps k \<in> nodes p \<Longrightarrow> k v \<in> nodes p"
| after_Look: "Look kw \<in> nodes p \<Longrightarrow> kw w \<in> nodes p"
| after_CallSetState: "CallSetState x r ke \<in> nodes p \<Longrightarrow> ke e \<in> nodes p"
| after_CallGetState: "CallGetState k \<in> nodes p \<Longrightarrow> k v \<in> nodes p"
| after_CallGetInitialState: "CallGetInitialState k \<in> nodes p \<Longrightarrow> k v \<in> nodes p"
| after_CallSubscribe: "CallSubscribe l q \<in> nodes p \<Longrightarrow> q \<in> nodes p"
| after_CallUnsubscribe: "CallUnsubscribe l q \<in> nodes p \<Longrightarrow> q \<in> nodes p"

text \<open>No function body of the program, and not \<open>p\<close>, calls \<^verbatim>\<open>setState\<close>.\<close>

definition no_setState :: "prog \<Rightarrow> bool" where
  "no_setState p = (\<forall>x r k. CallSetState x r k \<notin> nodes p)"

text \<open>The places a function body comes to when each \<^verbatim>\<open>setState\<close> it calls returns.\<close>

inductive_set normal_nodes :: "prog \<Rightarrow> prog set" for p :: prog where
  self: "p \<in> normal_nodes p"
| after_New: "New ps k \<in> normal_nodes p \<Longrightarrow> k v \<in> normal_nodes p"
| after_Look: "Look kw \<in> normal_nodes p \<Longrightarrow> kw w \<in> normal_nodes p"
| after_CallSetState: "CallSetState x r ke \<in> normal_nodes p \<Longrightarrow> ke None \<in> normal_nodes p"
| after_CallGetState: "CallGetState k \<in> normal_nodes p \<Longrightarrow> k v \<in> normal_nodes p"
| after_CallGetInitialState: "CallGetInitialState k \<in> normal_nodes p \<Longrightarrow> k v \<in> normal_nodes p"
| after_CallSubscribe: "CallSubscribe l q \<in> normal_nodes p \<Longrightarrow> q \<in> normal_nodes p"
| after_CallUnsubscribe: "CallUnsubscribe l q \<in> normal_nodes p \<Longrightarrow> q \<in> normal_nodes p"

text \<open>
  The function body \<open>p\<close> has no \<^verbatim>\<open>throw\<close> of its own: none that it comes to while
  the calls it makes return (what it does with an exception of a call that throws is
  left open).
\<close>

definition no_throw :: "prog \<Rightarrow> bool" where
  "no_throw p = (\<forall>e. Throw e \<notin> normal_nodes p)"

text \<open>
  The slots of the listener set: a run only appends slots and empties slots; it never
  fills or changes one.
\<close>

definition slots_le :: "fid option list \<Rightarrow> fid option list \<Rightarrow> bool" where
  "slots_le es es' =
     (length es \<le> length es' \<and> (\<forall>k<length es. es' ! k = es ! k \<or> es' ! k = None))"

text \<open>
  What a notification pass with previous snapshot \<open>prev\<close> does when no function calls
  \<^verbatim>\<open>setState\<close>: the snapshot stays, and every listener called is handed the snapshot
  and \<open>prev\<close>.
\<close>

definition quiet_step :: "jsval \<Rightarrow> world \<Rightarrow> world \<Rightarrow> bool" where
  "quiet_step prev w w' =
     (state w' = state w \<and>
      (\<exists>evs. trace w' = trace w @ evs
         \<and> (\<forall>l s p. ListenerCalled l s p \<in> set evs \<longrightarrow> s = state w \<and> p = prev)))"

text \<open>The call came back with a value (it did not throw).\<close>

fun returned :: "outcome \<Rightarrow> bool" where
  "returned (Ret v w) = True"
| "returned (Exc e w) = False"

text \<open>
  The listeners in the set after the recorded calls \<open>es\<close>, from the set \<open>R\<close> before them;
  and: every call of a listener in \<open>es\<close> is made while the listener is in the set.
\<close>

fun registered_after :: "fid set \<Rightarrow> event list \<Rightarrow> fid set" where
  "registered_after R [] = R"
| "registered_after R (Subscribed l # es) = registered_after (insert l R) es"
| "registered_after R (Unsubscribed l # es) = registered_after (R - {l}) es"
| "registered_after R (ListenerCalled l s p # es) = registered_after R es"
| "registered_after R (InitializerCalled # es) = registered_after R es"

fun called_while_registered :: "fid set \<Rightarrow> event list \<Rightarrow> bool" where
  "called_while_registered R [] = True"
| "called_while_registered R (Subscribed l # es) = called_while_registered (insert l R) es"
| "called_while_registered R (Unsubscribed l # es) = called_while_registered (R - {l}) es"
| "called_while_registered R (ListenerCalled l s p # es) = (l \<in> R \<and> called_while_registered R es)"
| "called_while_registered R (InitializerCalled # es) = called_while_registered R es"

text \<open>Between two worlds, the record of calls and the listener set agree in this way.\<close>

definition faithful :: "world \<Rightarrow> world \<Rightarrow> bool" where
  "faithful w w' =
     (\<exists>evs. trace w' = trace w @ evs
        \<and> called_while_registered (registered w) evs
        \<and> registered w' = registered_after (registered w) evs)"

text \<open>
  Between two worlds no call of the initializer is recorded (it is called by
  \<^verbatim>\<open>createStoreImpl\<close> alone).
\<close>

definition no_init :: "world \<Rightarrow> world \<Rightarrow> bool" where
  "no_init w w' = (\<exists>evs. trace w' = trace w @ evs \<and> InitializerCalled \<notin> set evs)"

text \<open>
  Running the function body \<open>p\<close> from \<open>w\<close> comes to a call of \<^verbatim>\<open>setState\<close>: the body
  is followed as \<open>exec\<close> follows it, up to its first call of \<^verbatim>\<open>setState\<close>.
\<close>

fun calls_setState :: "nat \<Rightarrow> prog \<Rightarrow> world \<Rightarrow> bool" where
  "calls_setState 0 p w = False"
| "calls_setState (Suc n) (Return v) w = False"
| "calls_setState (Suc n) (Throw e) w = False"
| "calls_setState (Suc n) (New ps k) w =
     (let (a, h) = new_object ps (heap w) in calls_setState n (k (Obj a)) (w\<lparr>heap := h\<rparr>))"
| "calls_setState (Suc n) (Look k) w = calls_setState n (k w) w"
| "calls_setState (Suc n) (CallSetState partial replace k) w = True"
| "calls_setState (Suc n) (CallGetState k) w = calls_setState n (k (getState w)) w"
| "calls_setState (Suc n) (CallGetInitialState k) w =
     (case getInitialState w of
        Inl e \<Rightarrow> False
      | Inr v \<Rightarrow> calls_setState n (k v) w)"
| "calls_setState (Suc n) (CallSubscribe l k) w = calls_setState n k (snd (subscribe l w))"
| "calls_setState (Suc n) (CallUnsubscribe l k) w = calls_setState n k (snd (unsubscribe l w))"

text \<open>
  During the notification pass \<open>forEach code n index previousState w\<close>, some listener that
  is called comes to a call of \<^verbatim>\<open>setState\<close>: the pass is followed slot by slot as
  \<open>forEach\<close> runs it.
\<close>

fun pass_calls_setState :: "code \<Rightarrow> nat \<Rightarrow> nat \<Rightarrow> jsval \<Rightarrow> world \<Rightarrow> bool" where
  "pass_calls_setState code 0 index previousState w = False"
| "pass_calls_setState code (Suc n) index previousState w =
     (if index < length (listeners w)
      then (case listeners w ! index of
              None \<Rightarrow> pass_calls_setState code n (Suc index) previousState w
            | Some listener \<Rightarrow>
                calls_setState n (code listener [state w, previousState])
                  (w\<lparr>trace := trace w @ [ListenerCalled listener (state w) previousState]\<rparr>)
                \<or> (case exec code n (code listener [state w, previousState])
                           (w\<lparr>trace := trace w @ [ListenerCalled listener (state w) previousState]\<rparr>) of
                      Some (Ret _ w') \<Rightarrow> pass_calls_setState code n (Suc index) previousState w'
                    | _ \<Rightarrow> False))
      else False)"

section \<open>The persistence subsystem\<close>

text \<open>
  Modelled from the spec: the persisted envelope \<^verbatim>\<open>{ state, version }\<close> read from typed
  storage (section 3, and \<^verbatim>\<open>StorageValue\<close> in the notes on the persist middleware). The
  persist middleware itself (\<^verbatim>\<open>src/middleware/persist.ts\<close>) is not among the sources.
\<close>

record envelope =
  env_state :: jsval
  env_version :: int

text \<open>
  Modelled from the spec: the hydration status of section 3, \<^verbatim>\<open>NotStarted\<close>,
  \<^verbatim>\<open>InProgress\<close>, \<^verbatim>\<open>Completed(success)\<close> (\<open>Completed None\<close>) or
  \<^verbatim>\<open>Completed(error)\<close> (\<open>Completed (Some e)\<close>).
\<close>

datatype hydration = NotStarted | InProgress | Completed "exn option"

text \<open>
  Modelled from the spec: the configuration of the persistence subsystem (section 4.6,
  \<^verbatim>\<open>PersistOptions\<close>). \<open>getItem\<close> is what the typed storage read comes to: \<open>Inl e\<close>
  when the read or the deserialization fails, \<open>Inr None\<close> when nothing is stored.
  \<open>migrate\<close> and \<open>merge\<close> may raise.
\<close>

record persist_options =
  getItem :: "exn + envelope option"
  version :: int
  migrate :: "jsval \<Rightarrow> int \<Rightarrow> exn + jsval"
  merge :: "jsval \<Rightarrow> jsval \<Rightarrow> exn + jsval"
  skipHydration :: bool

text \<open>
  Modelled from the spec: a store with the persistence subsystem: the store, the
  hydration status, and the calls made to the hydration-finished callbacks, each with
  \<^verbatim>\<open>(finalState | undefined, error | undefined)\<close>.
\<close>

record persisted =
  pstore :: world
  status :: hydration
  finished :: "(jsval option \<times> exn option) list"

text \<open>
  Modelled from the spec: the end of a hydration attempt (section 4.6):
  \<^verbatim>\<open>Completed(error)\<close> when load, migrate or merge raises, and the hydration-finished
  callbacks fire with the error.
\<close>

definition hydration_failed :: "exn \<Rightarrow> persisted \<Rightarrow> persisted" where
  "hydration_failed e ps = ps\<lparr>status := Completed (Some e), finished := finished ps @ [(None, Some e)]\<rparr>"

text \<open>
  Modelled from the spec: one hydration attempt (section 4.6, \<^verbatim>\<open>rehydrate()\<close>): the
  status becomes \<^verbatim>\<open>InProgress\<close>; the envelope is loaded; if absent nothing is merged and
  hydration is complete; if its version differs it is migrated; the value is merged with
  the current in-memory state and applied with \<^verbatim>\<open>setState\<close>, replacing.
\<close>

definition rehydrate :: "code \<Rightarrow> nat \<Rightarrow> persist_options \<Rightarrow> persisted \<Rightarrow> persisted option" where
  "rehydrate code n opts ps =
     (let ps1 = ps\<lparr>status := InProgress\<rparr>
      in case getItem opts of
           Inl e \<Rightarrow> Some (hydration_failed e ps1)
         | Inr None \<Rightarrow>
             Some (ps1\<lparr>status := Completed None,
                       finished := finished ps1 @ [(Some (state (pstore ps1)), None)]\<rparr>)
         | Inr (Some env) \<Rightarrow>
             (case (if env_version env \<noteq> version opts
                    then migrate opts (env_state env) (env_version env)
                    else Inr (env_state env)) of
                Inl e \<Rightarrow> Some (hydration_failed e ps1)
              | Inr migrated \<Rightarrow>
                  (case merge opts migrated (state (pstore ps1)) of
                     Inl e \<Rightarrow> Some (hydration_failed e ps1)
                   | Inr merged \<Rightarrow>
                       (case setState code n merged (Some True) (pstore ps1) of
                          None \<Rightarrow> None
                        | Some (Exc e w') \<Rightarrow> Some (hydration_failed e (ps1\<lparr>pstore := w'\<rparr>))
                        | Some (Ret _ w') \<Rightarrow>
                            Some (ps1\<lparr>pstore := w', status := Completed None,
                                      finished := finished ps1 @ [(Some (state w'), None)]\<rparr>)))))"

text \<open>
  Modelled from the spec: construction of a persistence-enabled store (sections 4.6 and
  7): the store is constructed; an error of the initializer propagates out of the factory
  (\<open>Inl\<close>); unless \<^verbatim>\<open>skipHydration\<close> is configured, hydration begins at once.
\<close>

definition persist_createStore ::
  "code \<Rightarrow> nat \<Rightarrow> prog \<Rightarrow> heap \<Rightarrow> event list \<Rightarrow> persist_options \<Rightarrow> (exn + persisted) option" where
  "persist_createStore code n createState h tr opts =
     (case createStoreImpl code n createState h tr of
        None \<Rightarrow> None
      | Some (Failed e w) \<Rightarrow> Some (Inl e)
      | Some (Created api w) \<Rightarrow>
          (let ps = \<lparr>pstore = w, status = NotStarted, finished = []\<rparr>
           in if skipHydration opts then Some (Inr ps)
              else map_option Inr (rehydrate code n opts ps)))"

section \<open>Example stores\<close>

text \<open>Concrete stores and programs at which the theorems below are instantiated.\<close>

text \<open>
  A store whose snapshot is the object \<^verbatim>\<open>{a: 0}\<close> at address 0, with one listener, and a
  second object \<^verbatim>\<open>{a: 0}\<close> at address 1; every function of the program returns its
  first argument.
\<close>

definition same_code :: code where
  "same_code f args = (case args of [] \<Rightarrow> Return Undefined | s # _ \<Rightarrow> Return s)"

definition same_world :: world where
  "same_world =
     \<lparr>state = Obj 0, initialState = Some (Obj 0), listeners = [Some 1],
      heap = \<lparr>cells = [0 \<mapsto> [''a'' \<mapsto> Num 0], 1 \<mapsto> [''a'' \<mapsto> Num 0]], fresh = 2\<rparr>,
      trace = []\<rparr>"

text \<open>
  A store whose snapshot is \<^verbatim>\<open>{a: 0, b: 2}\<close> (address 0), with one listener that does
  nothing, and the object \<^verbatim>\<open>{a: 1}\<close> (address 1); and the worlds after
  \<^verbatim>\<open>setState({a: 1}, false)\<close> and after \<^verbatim>\<open>setState({a: 1}, true)\<close>.
\<close>

definition merge_code :: code where
  "merge_code f args = Return Undefined"

definition merge_world :: world where
  "merge_world =
     \<lparr>state = Obj 0, initialState = Some (Obj 0), listeners = [Some 1],
      heap = \<lparr>cells = [0 \<mapsto> [''a'' \<mapsto> Num 0, ''b'' \<mapsto> Num 2], 1 \<mapsto> [''a'' \<mapsto> Num 1]], fresh = 2\<rparr>,
      trace = []\<rparr>"

definition merged_world :: world where
  "merged_world =
     \<lparr>state = Obj 2, initialState = Some (Obj 0), listeners = [Some 1],
      heap = \<lparr>cells = [0 \<mapsto> [''a'' \<mapsto> Num 0, ''b'' \<mapsto> Num 2], 1 \<mapsto> [''a'' \<mapsto> Num 1],
                       2 \<mapsto> [''a'' \<mapsto> Num 0, ''b'' \<mapsto> Num 2] ++ [''a'' \<mapsto> Num 1]], fresh = 3\<rparr>,
      trace = [ListenerCalled 1 (Obj 2) (Obj 0)]\<rparr>"

definition replaced_world :: world where
  "replaced_world =
     \<lparr>state = Obj 1, initialState = Some (Obj 0), listeners = [Some 1],
      heap = \<lparr>cells = [0 \<mapsto> [''a'' \<mapsto> Num 0, ''b'' \<mapsto> Num 2], 1 \<mapsto> [''a'' \<mapsto> Num 1]], fresh = 2\<rparr>,
      trace = [ListenerCalled 1 (Obj 1) (Obj 0)]\<rparr>"

text \<open>
  A store made by an initializer that returns a new object \<^verbatim>\<open>{count: 0}\<close>; function 5
  is an updater that returns a new object \<^verbatim>\<open>{count: 1}\<close>. \<open>counter_world\<close> is the
  store after construction, \<open>counter_later\<close> after \<^verbatim>\<open>setState(f5)\<close> and
  \<^verbatim>\<open>setState(7, true)\<close>.
\<close>

definition counter_code :: code where
  "counter_code f args = (if f = 5 then New [''count'' \<mapsto> Num 1] Return else Return Undefined)"

definition counter_init :: prog where
  "counter_init = New [''count'' \<mapsto> Num 0] Return"

definition counter_api :: api where
  "counter_api = \<lparr>api_setState = setState counter_code, api_getState = getState,
                  api_getInitialState = getInitialState, api_subscribe = subscribe\<rparr>"

definition counter_world :: world where
  "counter_world =
     \<lparr>state = Obj 0, initialState = Some (Obj 0), listeners = [],
      heap = \<lparr>cells = [0 \<mapsto> [''count'' \<mapsto> Num 0]], fresh = 1\<rparr>, trace = [InitializerCalled]\<rparr>"

definition counter_later :: world where
  "counter_later =
     \<lparr>state = Num 7, initialState = Some (Obj 0), listeners = [],
      heap = \<lparr>cells = [0 \<mapsto> [''count'' \<mapsto> Num 0], 1 \<mapsto> [''count'' \<mapsto> Num 1],
                       2 \<mapsto> [''count'' \<mapsto> Num 1]], fresh = 3\<rparr>,
      trace = [InitializerCalled]\<rparr>"

text \<open>
  An initializer that uses what it is given: it reads the snapshot (still
  \<^verbatim>\<open>undefined\<close>), sets it to 1, reads it again, subscribes listener 4 and returns a new
  object holding the two snapshots it read; \<open>seen_world\<close> is the store constructed.
\<close>

definition seen_init :: prog where
  "seen_init =
     CallGetState (\<lambda>s. CallSetState (Num 1) None (\<lambda>e. CallGetState (\<lambda>s'.
       CallSubscribe 4 (New [''before'' \<mapsto> s, ''after'' \<mapsto> s'] Return))))"

definition seen_world :: world where
  "seen_world =
     \<lparr>state = Obj 0, initialState = Some (Obj 0), listeners = [Some 4],
      heap = \<lparr>cells = [0 \<mapsto> [''before'' \<mapsto> Undefined, ''after'' \<mapsto> Num 1]], fresh = 1\<rparr>,
      trace = [InitializerCalled, Subscribed 4]\<rparr>"

text \<open>
  A store with the listeners 1, 2 and 3. Listener 1, when called, unsubscribes itself
  and listener 3 and subscribes listener 4; the others do nothing. \<open>hub_later\<close> is the
  store after \<^verbatim>\<open>setState(1)\<close> and \<^verbatim>\<open>setState(2)\<close>.
\<close>

definition hub_code :: code where
  "hub_code f args =
     (if f = 1 then CallUnsubscribe 1 (CallUnsubscribe 3 (CallSubscribe 4 (Return Undefined)))
      else Return Undefined)"

definition hub_world :: world where
  "hub_world =
     \<lparr>state = Num 0, initialState = Some (Num 0), listeners = [Some 1, Some 2, Some 3],
      heap = \<lparr>cells = Map.empty, fresh = 0\<rparr>, trace = []\<rparr>"

definition hub_later :: world where
  "hub_later =
     \<lparr>state = Num 2, initialState = Some (Num 0), listeners = [None, Some 2, None, Some 4],
      heap = \<lparr>cells = Map.empty, fresh = 0\<rparr>,
      trace = [ListenerCalled 1 (Num 1) (Num 0), Unsubscribed 1, Unsubscribed 3, Subscribed 4,
               ListenerCalled 2 (Num 1) (Num 0), ListenerCalled 4 (Num 1) (Num 0),
               ListenerCalled 2 (Num 2) (Num 1), ListenerCalled 4 (Num 2) (Num 1)]\<rparr>"

text \<open>
  The store \<open>hub_world\<close> after \<^verbatim>\<open>subscribe(f5)\<close>, after the closure returned is then
  called, and after \<^verbatim>\<open>setState(1)\<close> is then called (with functions that do nothing).
\<close>

definition sub_world :: world where
  "sub_world = hub_world\<lparr>listeners := [Some 1, Some 2, Some 3, Some 5], trace := [Subscribed 5]\<rparr>"

definition unsub_world :: world where
  "unsub_world = hub_world\<lparr>listeners := [Some 1, Some 2, Some 3, None],
                            trace := [Subscribed 5, Unsubscribed 5]\<rparr>"

definition unsub_later :: world where
  "unsub_later = hub_world\<lparr>state := Num 1, listeners := [Some 1, Some 2, Some 3, None],
       trace := [Subscribed 5, Unsubscribed 5, ListenerCalled 1 (Num 1) (Num 0),
                 ListenerCalled 2 (Num 1) (Num 0), ListenerCalled 3 (Num 1) (Num 0)]\<rparr>"

text \<open>
  A store with the listeners 1 and 2. Listener 1, when it is handed the snapshot 1 after
  the snapshot 0, calls \<^verbatim>\<open>setState(2)\<close>; listener 2 does nothing. \<open>reenter_later\<close> is the
  store after \<^verbatim>\<open>setState(1)\<close>.
\<close>

definition reenter_code :: code where
  "reenter_code f args =
     (if f = 1 \<and> args = [Num 1, Num 0] then CallSetState (Num 2) None (\<lambda>e. Return Undefined)
      else Return Undefined)"

definition reenter_world :: world where
  "reenter_world =
     \<lparr>state = Num 0, initialState = Some (Num 0), listeners = [Some 1, Some 2],
      heap = \<lparr>cells = Map.empty, fresh = 0\<rparr>, trace = []\<rparr>"

definition reenter_later :: world where
  "reenter_later =
     \<lparr>state = Num 2, initialState = Some (Num 0), listeners = [Some 1, Some 2],
      heap = \<lparr>cells = Map.empty, fresh = 0\<rparr>,
      trace = [ListenerCalled 1 (Num 1) (Num 0), ListenerCalled 1 (Num 2) (Num 1),
               ListenerCalled 2 (Num 2) (Num 1), ListenerCalled 2 (Num 2) (Num 0)]\<rparr>"

text \<open>The store \<open>reenter_world\<close> after \<^verbatim>\<open>setState(7)\<close>.\<close>

definition reenter_seven :: world where
  "reenter_seven =
     \<lparr>state = Num 7, initialState = Some (Num 0), listeners = [Some 1, Some 2],
      heap = \<lparr>cells = Map.empty, fresh = 0\<rparr>,
      trace = [ListenerCalled 1 (Num 7) (Num 0), ListenerCalled 2 (Num 7) (Num 0)]\<rparr>"

definition hub_once :: world where
  "hub_once =
     \<lparr>state = Num 1, initialState = Some (Num 0), listeners = [None, Some 2, None, Some 4],
      heap = \<lparr>cells = Map.empty, fresh = 0\<rparr>,
      trace = [ListenerCalled 1 (Num 1) (Num 0), Unsubscribed 1, Unsubscribed 3, Subscribed 4,
               ListenerCalled 2 (Num 1) (Num 0), ListenerCalled 4 (Num 1) (Num 0)]\<rparr>"

text \<open>A configuration whose storage read fails, and the store \<open>counter_world\<close> with it.\<close>

definition broken_options :: persist_options where
  "broken_options =
     \<lparr>getItem = Inl (Thrown (Str ''unreadable'')), version = 1, migrate = (\<lambda>v n. Inr v),
      merge = (\<lambda>p c. Inr p), skipHydration = False\<rparr>"

text \<open>The store \<open>counter_world\<close> after \<^verbatim>\<open>setState(f5, false)\<close>.\<close>

definition counter_updated :: world where
  "counter_updated =
     \<lparr>state = Obj 2, initialState = Some (Obj 0), listeners = [],
      heap = \<lparr>cells = [0 \<mapsto> [''count'' \<mapsto> Num 0], 1 \<mapsto> [''count'' \<mapsto> Num 1],
                       2 \<mapsto> [''count'' \<mapsto> Num 1]], fresh = 3\<rparr>,
      trace = [InitializerCalled]\<rparr>"

section \<open>General lemmas\<close>

lemma setState_candidate:
  "setState code (Suc n) partial replace w =
     (case candidate code n partial w of
        None \<Rightarrow> None
      | Some (Exc e w1) \<Rightarrow> Some (Exc e w1)
      | Some (Ret nextState w1) \<Rightarrow>
          if nextState \<noteq> state w1
          then forEach code n 0 (state w1) (assign_state nextState replace w1)
          else Some (Ret Undefined w1))"
  by (simp add: candidate_def Let_def split: option.splits outcome.splits)

lemma setStates_all_noop:
  "(\<forall>(p, r) \<in> set calls. candidate code n p w = Some (Ret (state w) w)) \<Longrightarrow>
   setStates code (Suc n) calls w = Some (Ret Undefined w)"
  by (induction calls) (auto simp: setState_candidate simp del: setState.simps)

lemma assign_state_fields [simp]:
  "initialState (assign_state v r w) = initialState w"
  "listeners (assign_state v r w) = listeners w"
  "trace (assign_state v r w) = trace w"
  by (simp_all add: assign_state_def Let_def split: prod.splits)

lemma heap_le_refl [simp]: "heap_le h h"
  by (simp add: heap_le_def)

lemma heap_le_trans: "heap_le h1 h2 \<Longrightarrow> heap_le h2 h3 \<Longrightarrow> heap_le h1 h3"
  by (auto simp: heap_le_def)

lemma heap_le_new_object: "heap_le h (snd (new_object ps h))"
  by (simp add: heap_le_def new_object_def)

lemma assign_from_cells:
  "fresh (assign_from t src h) = fresh h" "a \<noteq> t \<Longrightarrow> cells (assign_from t src h) a = cells h a"
  by (simp_all add: assign_from_def)

lemma Object_assign_cells:
  "fresh (Object_assign t srcs h) = fresh h \<and> (\<forall>a. a \<noteq> t \<longrightarrow> cells (Object_assign t srcs h) a = cells h a)"
  unfolding Object_assign_def
  by (induction srcs arbitrary: h) (simp_all add: assign_from_cells)

lemma heap_le_assign_state: "heap_le (heap w) (heap (assign_state v r w))"
  by (simp add: assign_state_def heap_le_def new_object_def Object_assign_cells)

lemma own_props_heap_le: "heap_le h h' \<Longrightarrow> allocated h v \<Longrightarrow> own_props h' v = own_props h v"
  by (auto simp: heap_le_def allocated_def own_props_def split: jsval.splits)

lemma allocated_heap_le: "heap_le h h' \<Longrightarrow> allocated h v \<Longrightarrow> allocated h' v"
  by (auto simp: heap_le_def allocated_def split: jsval.splits)

lemma assign_state_replace:
  "(case replace of Some b \<Rightarrow> b | None \<Rightarrow> typeof v \<noteq> ''object'' \<or> v = Null) \<Longrightarrow>
   assign_state v replace w = w\<lparr>state := v\<rparr>"
  by (simp add: assign_state_def)

lemma assign_state_merge:
  assumes "\<not> (case replace of Some b \<Rightarrow> b | None \<Rightarrow> typeof v \<noteq> ''object'' \<or> v = Null)"
    and "allocated (heap w) (state w)" and "allocated (heap w) v"
  shows "state (assign_state v replace w) = Obj (fresh (heap w))"
    and "own_props (heap (assign_state v replace w)) (Obj (fresh (heap w)))
           = own_props (heap w) (state w) ++ own_props (heap w) v"
    and "fresh (heap (assign_state v replace w)) = Suc (fresh (heap w))"
  using assms
  by (auto simp: assign_state_def new_object_def Object_assign_def assign_from_def own_props_def
      allocated_def split: jsval.splits)

text \<open>
  Any relation between worlds that is reflexive and transitive and holds across each
  single effect (creating an object, subscribing, unsubscribing, assigning the snapshot,
  recording the call of a registered listener) holds across every run.
\<close>

lemma run_related:
  fixes R :: "world \<Rightarrow> world \<Rightarrow> bool"
  assumes refl: "\<And>w. R w w"
    and trans: "\<And>w1 w2 w3. R w1 w2 \<Longrightarrow> R w2 w3 \<Longrightarrow> R w1 w3"
    and new: "\<And>ps w. R w (w\<lparr>heap := snd (new_object ps (heap w))\<rparr>)"
    and sub: "\<And>l w. R w (snd (subscribe l w))"
    and unsub: "\<And>l w. R w (snd (unsubscribe l w))"
    and assign: "\<And>v r w. v \<noteq> state w \<Longrightarrow> R w (assign_state v r w)"
    and call: "\<And>i l p w. i < length (listeners w) \<Longrightarrow> listeners w ! i = Some l \<Longrightarrow>
                 R w (w\<lparr>trace := trace w @ [ListenerCalled l (state w) p]\<rparr>)"
  shows "(\<forall>p w out. exec code n p w = Some out \<longrightarrow> R w (world_of out))
       \<and> (\<forall>partial replace w out. setState code n partial replace w = Some out \<longrightarrow> R w (world_of out))
       \<and> (\<forall>i prev w out. forEach code n i prev w = Some out \<longrightarrow> R w (world_of out))"
proof (induction n)
  case 0
  show ?case by simp
next
  case (Suc n)
  then have IHe: "\<And>p w out. exec code n p w = Some out \<Longrightarrow> R w (world_of out)"
    and IHs: "\<And>partial replace w out. setState code n partial replace w = Some out \<Longrightarrow> R w (world_of out)"
    and IHf: "\<And>i prev w out. forEach code n i prev w = Some out \<Longrightarrow> R w (world_of out)"
    by blast+
  have E: "R w (world_of out)" if "exec code (Suc n) p w = Some out" for p w out
  proof (cases p)
    case (Return v)
    with that show ?thesis by (auto simp: refl)
  next
    case (Throw e)
    with that show ?thesis by (auto simp: refl)
  next
    case (New ps k)
    with that have "exec code n (k (Obj (fresh (heap w)))) (w\<lparr>heap := snd (new_object ps (heap w))\<rparr>) = Some out"
      by (simp add: new_object_def)
    from IHe[OF this] new[of w ps] show ?thesis by (rule trans[rotated])
  next
    case (Look k)
    with that IHe show ?thesis by simp
  next
    case (CallSetState partial replace k)
    with that obtain r where r: "setState code n partial replace w = Some r"
      and k: "exec code n (k (case r of Ret _ _ \<Rightarrow> None | Exc e _ \<Rightarrow> Some e)) (world_of r) = Some out"
      by (auto split: option.splits outcome.splits)
    from IHs[OF r] IHe[OF k] show ?thesis by (rule trans)
  next
    case (CallGetState k)
    with that IHe show ?thesis by simp
  next
    case (CallGetInitialState k)
    with that IHe show ?thesis by (auto simp: refl split: sum.splits)
  next
    case (CallSubscribe l k)
    with that have "exec code n k (snd (subscribe l w)) = Some out" by simp
    from sub[of w l] IHe[OF this] show ?thesis by (rule trans)
  next
    case (CallUnsubscribe l k)
    with that have "exec code n k (snd (unsubscribe l w)) = Some out" by simp
    from unsub[of w l] IHe[OF this] show ?thesis by (rule trans)
  qed
  have S: "R w (world_of out)" if "setState code (Suc n) partial replace w = Some out" for partial replace w out
  proof -
    from that obtain r where c: "candidate code n partial w = Some r"
      by (auto simp: candidate_def split: option.splits)
    have rw: "R w (world_of r)"
      using c IHe by (auto simp: candidate_def refl split: jsval.splits)
    show ?thesis
    proof (cases r)
      case (Exc e w1)
      with that c have "out = Exc e w1" by (auto simp: candidate_def split: jsval.splits)
      with rw Exc show ?thesis by simp
    next
      case (Ret v w1)
      show ?thesis
      proof (cases "v = state w1")
        case True
        with that c Ret have "out = Ret Undefined w1" by (auto simp: candidate_def split: jsval.splits)
        with rw Ret show ?thesis by simp
      next
        case False
        with that c Ret have "forEach code n 0 (state w1) (assign_state v replace w1) = Some out"
          by (auto simp: candidate_def split: jsval.splits)
        from IHf[OF this] assign[OF False, of replace] have "R w1 (world_of out)" by (rule trans[rotated])
        with rw Ret show ?thesis by (auto intro: trans)
      qed
    qed
  qed
  have F: "R w (world_of out)" if "forEach code (Suc n) i prev w = Some out" for i prev w out
  proof (cases "i < length (listeners w)")
    case False
    with that show ?thesis by (auto simp: refl)
  next
    case True
    show ?thesis
    proof (cases "listeners w ! i")
      case None
      with that True IHf show ?thesis by simp
    next
      case (Some l)
      let ?w = "w\<lparr>trace := trace w @ [ListenerCalled l (state w) prev]\<rparr>"
      from that True Some obtain r where r: "exec code n (code l [state w, prev]) ?w = Some r"
        by (auto split: option.splits)
      have 1: "R w (world_of r)" using call[OF True Some, of prev] IHe[OF r] by (rule trans)
      show ?thesis
      proof (cases r)
        case (Exc e w')
        with that True Some r have "out = Exc e w'" by simp
        with 1 Exc show ?thesis by simp
      next
        case (Ret v w')
        with that True Some r have "forEach code n (Suc i) prev w' = Some out" by simp
        from IHf[OF this] 1 Ret show ?thesis by (auto intro: trans)
      qed
    qed
  qed
  from E S F show ?case by blast
qed

lemma run_initialState:
  "(\<forall>p w out. exec code n p w = Some out \<longrightarrow> initialState (world_of out) = initialState w)
 \<and> (\<forall>partial replace w out. setState code n partial replace w = Some out \<longrightarrow>
        initialState (world_of out) = initialState w)
 \<and> (\<forall>i prev w out. forEach code n i prev w = Some out \<longrightarrow> initialState (world_of out) = initialState w)"
  by (rule run_related [where R = "\<lambda>w w'. initialState w' = initialState w"])
     (simp_all add: subscribe_def unsubscribe_def)

lemma run_heap_le:
  "(\<forall>p w out. exec code n p w = Some out \<longrightarrow> heap_le (heap w) (heap (world_of out)))
 \<and> (\<forall>partial replace w out. setState code n partial replace w = Some out \<longrightarrow>
        heap_le (heap w) (heap (world_of out)))
 \<and> (\<forall>i prev w out. forEach code n i prev w = Some out \<longrightarrow> heap_le (heap w) (heap (world_of out)))"
  by (rule run_related [where R = "\<lambda>w w'. heap_le (heap w) (heap w')"])
     (auto simp: subscribe_def unsubscribe_def heap_le_new_object heap_le_assign_state
       intro: heap_le_trans)

text \<open>The record of calls only grows.\<close>

lemma run_trace:
  "(\<forall>p w out. exec code n p w = Some out \<longrightarrow> (\<exists>evs. trace (world_of out) = trace w @ evs))
 \<and> (\<forall>partial replace w out. setState code n partial replace w = Some out \<longrightarrow>
        (\<exists>evs. trace (world_of out) = trace w @ evs))
 \<and> (\<forall>i prev w out. forEach code n i prev w = Some out \<longrightarrow> (\<exists>evs. trace (world_of out) = trace w @ evs))"
  by (rule run_related [where R = "\<lambda>w w'. \<exists>evs. trace w' = trace w @ evs"])
     (auto simp: subscribe_def unsubscribe_def)

lemma slots_le_refl [simp]: "slots_le es es"
  by (simp add: slots_le_def)

lemma slots_le_trans: "slots_le a b \<Longrightarrow> slots_le b c \<Longrightarrow> slots_le a c"
  unfolding slots_le_def by (metis (no_types, lifting) le_trans less_le_trans)

lemma slots_le_add: "slots_le es (Set_add l es)"
  by (simp add: slots_le_def Set_add_def nth_append)

lemma slots_le_delete: "slots_le es (Set_delete l es)"
  by (simp add: slots_le_def Set_delete_def)

lemma run_slots:
  "(\<forall>p w out. exec code n p w = Some out \<longrightarrow> slots_le (listeners w) (listeners (world_of out)))
 \<and> (\<forall>partial replace w out. setState code n partial replace w = Some out \<longrightarrow>
        slots_le (listeners w) (listeners (world_of out)))
 \<and> (\<forall>i prev w out. forEach code n i prev w = Some out \<longrightarrow>
        slots_le (listeners w) (listeners (world_of out)))"
  by (rule run_related [where R = "\<lambda>w w'. slots_le (listeners w) (listeners w')"])
     (auto simp: subscribe_def unsubscribe_def slots_le_add slots_le_delete intro: slots_le_trans)

lemma setStates_related:
  assumes "\<And>w. R w w" and "\<And>w1 w2 w3. R w1 w2 \<Longrightarrow> R w2 w3 \<Longrightarrow> R w1 w3"
    and "\<And>partial replace w out. setState code n partial replace w = Some out \<Longrightarrow> R w (world_of out)"
  shows "setStates code n calls w = Some out \<Longrightarrow> R w (world_of out)"
proof (induction calls arbitrary: w)
  case Nil
  then show ?case using assms(1) by auto
next
  case (Cons c calls)
  obtain partial replace where c: "c = (partial, replace)" by (cases c)
  from Cons.prems c obtain r where r: "setState code n partial replace w = Some r"
    by (auto split: option.splits)
  show ?case
  proof (cases r)
    case (Exc e w')
    with Cons.prems c r assms(3)[OF r] show ?thesis by auto
  next
    case (Ret v w')
    with Cons.prems c r have "setStates code n calls w' = Some out" by simp
    from Cons.IH[OF this] assms(3)[OF r] Ret show ?thesis by (auto intro: assms(2))
  qed
qed

lemma nodes_trans: "r \<in> nodes q \<Longrightarrow> q \<in> nodes p \<Longrightarrow> r \<in> nodes p"
  by (induction rule: nodes.induct) (auto intro: nodes.intros)

lemma no_setState_node: "no_setState p \<Longrightarrow> q \<in> nodes p \<Longrightarrow> no_setState q"
  unfolding no_setState_def by (blast intro: nodes_trans)

lemma normal_nodes_trans: "r \<in> normal_nodes q \<Longrightarrow> q \<in> normal_nodes p \<Longrightarrow> r \<in> normal_nodes p"
  by (induction rule: normal_nodes.induct) (auto intro: normal_nodes.intros)

lemma no_throw_node: "no_throw p \<Longrightarrow> q \<in> normal_nodes p \<Longrightarrow> no_throw q"
  unfolding no_throw_def by (blast intro: normal_nodes_trans)

lemma no_setState_after:
  "no_setState (New ps k) \<Longrightarrow> no_setState (k v)"
  "no_setState (Look kw) \<Longrightarrow> no_setState (kw w)"
  "no_setState (CallGetState k) \<Longrightarrow> no_setState (k v)"
  "no_setState (CallGetInitialState k) \<Longrightarrow> no_setState (k v)"
  "no_setState (CallSubscribe l q) \<Longrightarrow> no_setState q"
  "no_setState (CallUnsubscribe l q) \<Longrightarrow> no_setState q"
  "\<not> no_setState (CallSetState x r ke)"
proof -
  show "no_setState (New ps k) \<Longrightarrow> no_setState (k v)"
    by (erule no_setState_node) (rule nodes.after_New, rule nodes.self)
  show "no_setState (Look kw) \<Longrightarrow> no_setState (kw w)"
    by (erule no_setState_node) (rule nodes.after_Look, rule nodes.self)
  show "no_setState (CallGetState k) \<Longrightarrow> no_setState (k v)"
    by (erule no_setState_node) (rule nodes.after_CallGetState, rule nodes.self)
  show "no_setState (CallGetInitialState k) \<Longrightarrow> no_setState (k v)"
    by (erule no_setState_node) (rule nodes.after_CallGetInitialState, rule nodes.self)
  show "no_setState (CallSubscribe l q) \<Longrightarrow> no_setState q"
    by (erule no_setState_node) (rule nodes.after_CallSubscribe, rule nodes.self)
  show "no_setState (CallUnsubscribe l q) \<Longrightarrow> no_setState q"
    by (erule no_setState_node) (rule nodes.after_CallUnsubscribe, rule nodes.self)
  show "\<not> no_setState (CallSetState x r ke)"
    unfolding no_setState_def using nodes.self by blast
qed

text \<open>
  Where no function body calls \<^verbatim>\<open>setState\<close>, a relation that holds across the effects
  other than the assignment holds across every function call and every notification
  pass.
\<close>

lemma quiet_run_related:
  fixes R :: "world \<Rightarrow> world \<Rightarrow> bool"
  assumes refl: "\<And>w. R w w"
    and trans: "\<And>w1 w2 w3. R w1 w2 \<Longrightarrow> R w2 w3 \<Longrightarrow> R w1 w3"
    and new: "\<And>ps w. R w (w\<lparr>heap := snd (new_object ps (heap w))\<rparr>)"
    and sub: "\<And>l w. R w (snd (subscribe l w))"
    and unsub: "\<And>l w. R w (snd (unsubscribe l w))"
    and call: "\<And>i l w. i < length (listeners w) \<Longrightarrow> listeners w ! i = Some l \<Longrightarrow>
                 R w (w\<lparr>trace := trace w @ [ListenerCalled l (state w) prev]\<rparr>)"
    and quiet: "\<And>f args. no_setState (code f args)"
  shows "(\<forall>p w out. no_setState p \<longrightarrow> exec code n p w = Some out \<longrightarrow> R w (world_of out))
       \<and> (\<forall>i w out. forEach code n i prev w = Some out \<longrightarrow> R w (world_of out))"
proof (induction n)
  case 0
  show ?case by simp
next
  case (Suc n)
  then have IHe: "\<And>p w out. no_setState p \<Longrightarrow> exec code n p w = Some out \<Longrightarrow> R w (world_of out)"
    and IHf: "\<And>i w out. forEach code n i prev w = Some out \<Longrightarrow> R w (world_of out)"
    by blast+
  have E: "R w (world_of out)" if q: "no_setState p" and run: "exec code (Suc n) p w = Some out" for p w out
  proof (cases p)
    case (Return v)
    with run show ?thesis by (auto simp: refl)
  next
    case (Throw e)
    with run show ?thesis by (auto simp: refl)
  next
    case (New ps k)
    with run have 1: "exec code n (k (Obj (fresh (heap w)))) (w\<lparr>heap := snd (new_object ps (heap w))\<rparr>) = Some out"
      by (simp add: new_object_def)
    have "no_setState (k (Obj (fresh (heap w))))"
      using q unfolding New by (rule no_setState_after(1))
    from IHe[OF this 1] new[of w ps] show ?thesis by (rule trans[rotated])
  next
    case (Look k)
    have "no_setState (k w)"
      using q unfolding Look by (rule no_setState_after(2))
    with run Look IHe show ?thesis by simp
  next
    case (CallSetState partial replace k)
    with q no_setState_after(7) have False by blast
    then show ?thesis ..
  next
    case (CallGetState k)
    have "no_setState (k (getState w))"
      using q unfolding CallGetState by (rule no_setState_after(3))
    with run CallGetState IHe show ?thesis by simp
  next
    case (CallGetInitialState k)
    have "no_setState (k v)" for v
      using q unfolding CallGetInitialState by (rule no_setState_after(4))
    with run CallGetInitialState IHe show ?thesis by (auto simp: refl split: sum.splits)
  next
    case (CallSubscribe l k)
    have k: "no_setState k"
      using q unfolding CallSubscribe by (rule no_setState_after(5))
    from run CallSubscribe have "exec code n k (snd (subscribe l w)) = Some out" by simp
    from sub[of w l] IHe[OF k this] show ?thesis by (rule trans)
  next
    case (CallUnsubscribe l k)
    have k: "no_setState k"
      using q unfolding CallUnsubscribe by (rule no_setState_after(6))
    from run CallUnsubscribe have "exec code n k (snd (unsubscribe l w)) = Some out" by simp
    from unsub[of w l] IHe[OF k this] show ?thesis by (rule trans)
  qed
  have F: "R w (world_of out)" if "forEach code (Suc n) i prev w = Some out" for i w out
  proof (cases "i < length (listeners w)")
    case False
    with that show ?thesis by (auto simp: refl)
  next
    case True
    show ?thesis
    proof (cases "listeners w ! i")
      case None
      with that True IHf show ?thesis by simp
    next
      case (Some l)
      let ?w = "w\<lparr>trace := trace w @ [ListenerCalled l (state w) prev]\<rparr>"
      from that True Some obtain r where r: "exec code n (code l [state w, prev]) ?w = Some r"
        by (auto split: option.splits)
      have 1: "R w (world_of r)" using call[OF True Some] IHe[OF quiet r] by (rule trans)
      show ?thesis
      proof (cases r)
        case (Exc e w')
        with that True Some r have "out = Exc e w'" by simp
        with 1 Exc show ?thesis by simp
      next
        case (Ret v w')
        with that True Some r have "forEach code n (Suc i) prev w' = Some out" by simp
        from IHf[OF this] 1 Ret show ?thesis by (auto intro: trans)
      qed
    qed
  qed
  from E F show ?case by blast
qed

text \<open>
  Where no function body calls \<^verbatim>\<open>setState\<close>, a notification pass leaves the snapshot
  alone, and every listener it calls is handed the snapshot and the previous snapshot
  of the pass.
\<close>

lemma quiet_step_refl: "quiet_step prev w w"
  by (simp add: quiet_step_def)

lemma quiet_step_trans:
  assumes "quiet_step prev w1 w2" and "quiet_step prev w2 w3"
  shows "quiet_step prev w1 w3"
proof -
  from assms(1) obtain evs1 where 1: "state w2 = state w1" "trace w2 = trace w1 @ evs1"
    "\<forall>l s p. ListenerCalled l s p \<in> set evs1 \<longrightarrow> s = state w1 \<and> p = prev"
    unfolding quiet_step_def by blast
  from assms(2) obtain evs2 where 2: "state w3 = state w2" "trace w3 = trace w2 @ evs2"
    "\<forall>l s p. ListenerCalled l s p \<in> set evs2 \<longrightarrow> s = state w2 \<and> p = prev"
    unfolding quiet_step_def by blast
  have "trace w3 = trace w1 @ (evs1 @ evs2)" using 1(2) 2(2) by simp
  moreover have "\<forall>l s p. ListenerCalled l s p \<in> set (evs1 @ evs2) \<longrightarrow> s = state w1 \<and> p = prev"
    using 1(1) 1(3) 2(3) by auto
  ultimately show ?thesis
    unfolding quiet_step_def using 1(1) 2(1) by metis
qed

lemma quiet_step_one:
  "\<forall>l s p. e = ListenerCalled l s p \<longrightarrow> s = state w \<and> p = prev \<Longrightarrow>
   state w' = state w \<Longrightarrow> trace w' = trace w @ [e] \<Longrightarrow> quiet_step prev w w'"
  unfolding quiet_step_def by auto

lemma quiet_forEach:
  assumes "\<And>f args. no_setState (code f args)" and "forEach code n i prev w = Some out"
  shows "quiet_step prev w (world_of out)"
proof -
  have "(\<forall>p w out. no_setState p \<longrightarrow> exec code n p w = Some out \<longrightarrow> quiet_step prev w (world_of out))
      \<and> (\<forall>i w out. forEach code n i prev w = Some out \<longrightarrow> quiet_step prev w (world_of out))"
  proof (rule quiet_run_related [where R = "quiet_step prev"])
    show "quiet_step prev w w" for w by (rule quiet_step_refl)
    show "quiet_step prev w1 w2 \<Longrightarrow> quiet_step prev w2 w3 \<Longrightarrow> quiet_step prev w1 w3" for w1 w2 w3
      by (rule quiet_step_trans)
    show "quiet_step prev w (w\<lparr>heap := snd (new_object ps (heap w))\<rparr>)" for ps w
      by (simp add: quiet_step_def)
    show "quiet_step prev w (snd (subscribe l w))" for l w
      by (rule quiet_step_one [where e = "Subscribed l"]) (simp_all add: subscribe_def)
    show "quiet_step prev w (snd (unsubscribe l w))" for l w
      by (rule quiet_step_one [where e = "Unsubscribed l"]) (simp_all add: unsubscribe_def)
    show "quiet_step prev w (w\<lparr>trace := trace w @ [ListenerCalled l (state w) prev]\<rparr>)" for l w
      by (rule quiet_step_one [where e = "ListenerCalled l (state w) prev"]) simp_all
    show "no_setState (code f args)" for f args by (rule assms(1))
  qed
  from this [THEN conjunct2, rule_format, OF assms(2)] show ?thesis .
qed

lemma no_throw_after:
  "no_throw (New ps k) \<Longrightarrow> no_throw (k v)"
  "no_throw (Look kw) \<Longrightarrow> no_throw (kw w)"
  "no_throw (CallGetState k) \<Longrightarrow> no_throw (k v)"
  "no_throw (CallGetInitialState k) \<Longrightarrow> no_throw (k v)"
  "no_throw (CallSubscribe l q) \<Longrightarrow> no_throw q"
  "no_throw (CallUnsubscribe l q) \<Longrightarrow> no_throw q"
  "no_throw (CallSetState x r ke) \<Longrightarrow> no_throw (ke None)"
  "\<not> no_throw (Throw e')"
proof -
  show "no_throw (New ps k) \<Longrightarrow> no_throw (k v)"
    by (erule no_throw_node) (rule normal_nodes.after_New, rule normal_nodes.self)
  show "no_throw (Look kw) \<Longrightarrow> no_throw (kw w)"
    by (erule no_throw_node) (rule normal_nodes.after_Look, rule normal_nodes.self)
  show "no_throw (CallGetState k) \<Longrightarrow> no_throw (k v)"
    by (erule no_throw_node) (rule normal_nodes.after_CallGetState, rule normal_nodes.self)
  show "no_throw (CallGetInitialState k) \<Longrightarrow> no_throw (k v)"
    by (erule no_throw_node) (rule normal_nodes.after_CallGetInitialState, rule normal_nodes.self)
  show "no_throw (CallSubscribe l q) \<Longrightarrow> no_throw q"
    by (erule no_throw_node) (rule normal_nodes.after_CallSubscribe, rule normal_nodes.self)
  show "no_throw (CallUnsubscribe l q) \<Longrightarrow> no_throw q"
    by (erule no_throw_node) (rule normal_nodes.after_CallUnsubscribe, rule normal_nodes.self)
  show "no_throw (CallSetState x r ke) \<Longrightarrow> no_throw (ke None)"
    by (erule no_throw_node) (rule normal_nodes.after_CallSetState, rule normal_nodes.self)
  show "\<not> no_throw (Throw e')"
    unfolding no_throw_def using normal_nodes.self by blast
qed

text \<open>
  Nothing in the store throws of its own once the store is constructed: where no function
  body has a \<^verbatim>\<open>throw\<close>, every call returns.
\<close>

lemma run_returns:
  assumes code: "\<And>f args. no_throw (code f args)"
  shows "(\<forall>p w out. no_throw p \<longrightarrow> initialState w \<noteq> None \<longrightarrow> exec code n p w = Some out \<longrightarrow> returned out)
       \<and> (\<forall>partial replace w out. initialState w \<noteq> None \<longrightarrow>
             setState code n partial replace w = Some out \<longrightarrow> returned out)
       \<and> (\<forall>i prev w out. initialState w \<noteq> None \<longrightarrow> forEach code n i prev w = Some out \<longrightarrow> returned out)"
proof (induction n)
  case 0
  show ?case by simp
next
  case (Suc n)
  then have IHe: "\<And>p w out. no_throw p \<Longrightarrow> initialState w \<noteq> None \<Longrightarrow> exec code n p w = Some out \<Longrightarrow> returned out"
    and IHs: "\<And>partial replace w out. initialState w \<noteq> None \<Longrightarrow>
                setState code n partial replace w = Some out \<Longrightarrow> returned out"
    and IHf: "\<And>i prev w out. initialState w \<noteq> None \<Longrightarrow> forEach code n i prev w = Some out \<Longrightarrow> returned out"
    by blast+
  note init = run_initialState [of code n, THEN conjunct1, rule_format]
    run_initialState [of code n, THEN conjunct2, THEN conjunct1, rule_format]
  have E: "returned out"
    if q: "no_throw p" and i: "initialState w \<noteq> None" and run: "exec code (Suc n) p w = Some out"
    for p w out
  proof (cases p)
    case (Return v)
    with run show ?thesis by auto
  next
    case (Throw e)
    with q no_throw_after(8) show ?thesis by blast
  next
    case (New ps k)
    with run have 1: "exec code n (k (Obj (fresh (heap w)))) (w\<lparr>heap := snd (new_object ps (heap w))\<rparr>) = Some out"
      by (simp add: new_object_def)
    have "no_throw (k (Obj (fresh (heap w))))"
      using q unfolding New by (rule no_throw_after(1))
    from IHe[OF this _ 1] i show ?thesis by simp
  next
    case (Look k)
    have "no_throw (k w)" using q unfolding Look by (rule no_throw_after(2))
    with run Look IHe i show ?thesis by simp
  next
    case (CallSetState partial replace k)
    with run obtain r where r: "setState code n partial replace w = Some r"
      and k: "exec code n (k (case r of Ret _ _ \<Rightarrow> None | Exc e _ \<Rightarrow> Some e)) (world_of r) = Some out"
      by (auto split: option.splits outcome.splits)
    have kn: "no_throw (k None)" using q unfolding CallSetState by (rule no_throw_after(7))
    from IHs[OF i r] obtain v' w' where rv: "r = Ret v' w'" by (cases r) auto
    have "initialState w' \<noteq> None" using init(2)[OF r] i rv by simp
    moreover from k rv have "exec code n (k None) w' = Some out" by simp
    ultimately show ?thesis using IHe kn by blast
  next
    case (CallGetState k)
    have "no_throw (k (getState w))" using q unfolding CallGetState by (rule no_throw_after(3))
    with run CallGetState IHe i show ?thesis by simp
  next
    case (CallGetInitialState k)
    have "no_throw (k v)" for v using q unfolding CallGetInitialState by (rule no_throw_after(4))
    with run CallGetInitialState IHe i show ?thesis
      by (auto simp: getInitialState_def split: sum.splits option.splits)
  next
    case (CallSubscribe l k)
    have k: "no_throw k" using q unfolding CallSubscribe by (rule no_throw_after(5))
    from run CallSubscribe have "exec code n k (snd (subscribe l w)) = Some out" by simp
    from IHe[OF k _ this] i show ?thesis by (simp add: subscribe_def)
  next
    case (CallUnsubscribe l k)
    have k: "no_throw k" using q unfolding CallUnsubscribe by (rule no_throw_after(6))
    from run CallUnsubscribe have "exec code n k (snd (unsubscribe l w)) = Some out" by simp
    from IHe[OF k _ this] i show ?thesis by (simp add: unsubscribe_def)
  qed
  have S: "returned out"
    if i: "initialState w \<noteq> None" and run: "setState code (Suc n) partial replace w = Some out"
    for partial replace w out
  proof -
    from run obtain r where c: "candidate code n partial w = Some r"
      by (auto simp: setState_candidate simp del: setState.simps split: option.splits)
    have rr: "returned r \<and> initialState (world_of r) \<noteq> None"
    proof (cases partial)
      case (Fn f)
      with c have e: "exec code n (code f [state w]) w = Some r" by (simp add: candidate_def)
      from IHe[OF code i e] init(1)[OF e] i show ?thesis by simp
    qed (use c i in \<open>auto simp: candidate_def\<close>)
    then obtain v w1 where r: "r = Ret v w1" and i1: "initialState w1 \<noteq> None"
      by (cases r) auto
    show ?thesis
    proof (cases "v = state w1")
      case True
      with run c r show ?thesis by (auto simp: setState_candidate simp del: setState.simps)
    next
      case False
      with run c r have "forEach code n 0 (state w1) (assign_state v replace w1) = Some out"
        by (simp add: setState_candidate del: setState.simps)
      from IHf[OF _ this] i1 show ?thesis by simp
    qed
  qed
  have F: "returned out"
    if i: "initialState w \<noteq> None" and run: "forEach code (Suc n) j prev w = Some out"
    for j prev w out
  proof (cases "j < length (listeners w)")
    case False
    with run show ?thesis by auto
  next
    case True
    show ?thesis
    proof (cases "listeners w ! j")
      case None
      with run True IHf i show ?thesis by simp
    next
      case (Some l)
      let ?w = "w\<lparr>trace := trace w @ [ListenerCalled l (state w) prev]\<rparr>"
      from run True Some obtain r where r: "exec code n (code l [state w, prev]) ?w = Some r"
        by (auto split: option.splits)
      have "returned r" using IHe[OF code _ r] i by simp
      moreover have "initialState (world_of r) \<noteq> None" using init(1)[OF r] i by simp
      ultimately obtain v w' where rv: "r = Ret v w'" and i': "initialState w' \<noteq> None"
        by (cases r) auto
      with run True Some r have "forEach code n (Suc j) prev w' = Some out" by simp
      from IHf[OF i' this] show ?thesis .
    qed
  qed
  from E S F show ?case by blast
qed

lemma events_since_append: "trace w' = trace w @ evs \<Longrightarrow> events_since w w' = evs"
  by (simp add: events_since_def)

lemma registered_after_append:
  "registered_after R (xs @ ys) = registered_after (registered_after R xs) ys"
  by (induction R xs rule: registered_after.induct) simp_all

lemma called_while_registered_append:
  "called_while_registered R (xs @ ys)
     = (called_while_registered R xs \<and> called_while_registered (registered_after R xs) ys)"
  by (induction R xs rule: called_while_registered.induct) simp_all

lemma registered_after_mem:
  "l \<in> registered_after R es \<Longrightarrow> l \<in> R \<or> Subscribed l \<in> set es"
  by (induction R es rule: registered_after.induct) auto

lemma not_called_once_removed:
  assumes "called_while_registered R (xs @ Unsubscribed l # ys @ ListenerCalled l s p # zs)"
  shows "Subscribed l \<in> set ys"
proof -
  from assms have "called_while_registered (registered_after R xs - {l}) (ys @ ListenerCalled l s p # zs)"
    by (simp add: called_while_registered_append)
  then have "l \<in> registered_after (registered_after R xs - {l}) ys"
    by (simp add: called_while_registered_append)
  from registered_after_mem[OF this] show ?thesis by simp
qed

lemma not_called_unless_registered:
  assumes "called_while_registered R (ys @ ListenerCalled l s p # zs)" and "l \<notin> R"
  shows "Subscribed l \<in> set ys"
proof -
  from assms(1) have "l \<in> registered_after R ys"
    by (simp add: called_while_registered_append)
  from registered_after_mem[OF this] assms(2) show ?thesis by simp
qed

lemma registered_subscribe: "registered (snd (subscribe l w)) = insert l (registered w)"
  by (auto simp: registered_def subscribe_def Set_add_def)

lemma registered_unsubscribe: "registered (snd (unsubscribe l w)) = registered w - {l}"
  by (auto simp: registered_def unsubscribe_def Set_delete_def)

lemma faithful_refl: "faithful w w"
  by (simp add: faithful_def)

lemma faithful_trans:
  assumes "faithful w1 w2" and "faithful w2 w3"
  shows "faithful w1 w3"
proof -
  from assms(1) obtain evs1 where 1: "trace w2 = trace w1 @ evs1"
    "called_while_registered (registered w1) evs1"
    "registered w2 = registered_after (registered w1) evs1"
    unfolding faithful_def by blast
  from assms(2) obtain evs2 where 2: "trace w3 = trace w2 @ evs2"
    "called_while_registered (registered w2) evs2"
    "registered w3 = registered_after (registered w2) evs2"
    unfolding faithful_def by blast
  have "trace w3 = trace w1 @ (evs1 @ evs2)" using 1(1) 2(1) by simp
  moreover have "called_while_registered (registered w1) (evs1 @ evs2)"
    using 1(2) 1(3) 2(2) by (simp add: called_while_registered_append)
  moreover have "registered w3 = registered_after (registered w1) (evs1 @ evs2)"
    using 1(3) 2(3) by (simp add: registered_after_append)
  ultimately show ?thesis unfolding faithful_def by blast
qed

lemma faithful_one:
  "trace w' = trace w @ [e] \<Longrightarrow> called_while_registered (registered w) [e] \<Longrightarrow>
   registered w' = registered_after (registered w) [e] \<Longrightarrow> faithful w w'"
  unfolding faithful_def by blast

lemma faithful_silent: "trace w' = trace w \<Longrightarrow> listeners w' = listeners w \<Longrightarrow> faithful w w'"
  unfolding faithful_def registered_def by simp

lemma run_faithful:
  "(\<forall>p w out. exec code n p w = Some out \<longrightarrow> faithful w (world_of out))
 \<and> (\<forall>partial replace w out. setState code n partial replace w = Some out \<longrightarrow> faithful w (world_of out))
 \<and> (\<forall>i prev w out. forEach code n i prev w = Some out \<longrightarrow> faithful w (world_of out))"
proof (rule run_related [where R = faithful])
  show "faithful w w" for w by (rule faithful_refl)
  show "faithful w1 w2 \<Longrightarrow> faithful w2 w3 \<Longrightarrow> faithful w1 w3" for w1 w2 w3
    by (rule faithful_trans)
  show "faithful w (w\<lparr>heap := snd (new_object ps (heap w))\<rparr>)" for ps w
    by (rule faithful_silent) simp_all
  show "faithful w (snd (subscribe l w))" for l w
    by (rule faithful_one [where e = "Subscribed l"])
       (simp_all add: registered_subscribe, simp add: subscribe_def)
  show "faithful w (snd (unsubscribe l w))" for l w
    by (rule faithful_one [where e = "Unsubscribed l"])
       (simp_all add: registered_unsubscribe, simp add: unsubscribe_def)
  show "faithful w (assign_state v r w)" for v r w
    by (rule faithful_silent) simp_all
  show "faithful w (w\<lparr>trace := trace w @ [ListenerCalled l (state w) p]\<rparr>)"
    if "i < length (listeners w)" and "listeners w ! i = Some l" for i l p w
  proof (rule faithful_one [where e = "ListenerCalled l (state w) p"])
    from that have "Some l \<in> set (listeners w)" by (metis nth_mem)
    then show "called_while_registered (registered w) [ListenerCalled l (state w) p]"
      by (simp add: registered_def)
  qed (simp_all add: registered_def)
qed

text \<open>
  A notification pass that returns has called every listener that is registered when it
  returns and stands at or after the slot the pass started from.
\<close>

lemma forEach_calls_all:
  "forEach code n i prev w = Some (Ret u w') \<Longrightarrow> i \<le> k \<Longrightarrow> k < length (listeners w') \<Longrightarrow>
   listeners w' ! k = Some l \<Longrightarrow> \<exists>s. ListenerCalled l s prev \<in> set (events_since w w')"
proof (induction n arbitrary: i w)
  case 0
  then show ?case by simp
next
  case (Suc n)
  note slots_e = run_slots [of code n, THEN conjunct1, rule_format]
  note slots_f = run_slots [of code n, THEN conjunct2, THEN conjunct2, rule_format]
  note trace_e = run_trace [of code n, THEN conjunct1, rule_format]
  note trace_f = run_trace [of code n, THEN conjunct2, THEN conjunct2, rule_format]
  show ?case
  proof (cases "i < length (listeners w)")
    case False
    with Suc.prems have "w' = w" by simp
    with False Suc.prems show ?thesis by simp
  next
    case True
    show ?thesis
    proof (cases "listeners w ! i")
      case None
      with Suc.prems True have run: "forEach code n (Suc i) prev w = Some (Ret u w')" by simp
      from slots_f[OF run] have sl: "slots_le (listeners w) (listeners w')" by simp
      show ?thesis
      proof (cases "k = i")
        case True
        with sl \<open>i < length (listeners w)\<close> None Suc.prems(4) show ?thesis
          by (auto simp: slots_le_def)
      next
        case False
        with Suc.prems(2) have "Suc i \<le> k" by simp
        from Suc.IH[OF run this Suc.prems(3,4)] show ?thesis .
      qed
    next
      case (Some l0)
      let ?w = "w\<lparr>trace := trace w @ [ListenerCalled l0 (state w) prev]\<rparr>"
      from Suc.prems(1) True Some obtain v w1 where
        r: "exec code n (code l0 [state w, prev]) ?w = Some (Ret v w1)"
        and run: "forEach code n (Suc i) prev w1 = Some (Ret u w')"
        by (auto split: option.splits outcome.splits)
      from trace_e[OF r] obtain evs1 where t1: "trace w1 = trace w @ ListenerCalled l0 (state w) prev # evs1"
        by auto
      from trace_f[OF run] obtain evs2 where t2: "trace w' = trace w1 @ evs2" by auto
      have ev: "events_since w w' = ListenerCalled l0 (state w) prev # evs1 @ evs2"
        using t1 t2 by (simp add: events_since_def)
      have ev1: "events_since w1 w' = evs2" using t2 by (simp add: events_since_def)
      show ?thesis
      proof (cases "k = i")
        case True
        from slots_e[OF r] slots_f[OF run]
        have "slots_le (listeners w) (listeners w')" by (auto intro: slots_le_trans)
        with \<open>i < length (listeners w)\<close> Some Suc.prems(4) True have "l = l0"
          by (auto simp: slots_le_def)
        with ev show ?thesis by auto
      next
        case False
        with Suc.prems(2) have "Suc i \<le> k" by simp
        from Suc.IH[OF run this Suc.prems(3,4)] ev ev1 show ?thesis by auto
      qed
    qed
  qed
qed

lemma forEach_empty_set:
  "registered w = {} \<Longrightarrow> length (listeners w) - i < n \<Longrightarrow>
   forEach code n i prev w = Some (Ret Undefined w)"
proof (induction n arbitrary: i)
  case 0
  then show ?case by simp
next
  case (Suc n)
  show ?case
  proof (cases "i < length (listeners w)")
    case False
    then show ?thesis by simp
  next
    case True
    with Suc.prems(1) have "listeners w ! i = None"
      by (cases "listeners w ! i") (auto simp: registered_def dest: nth_mem)
    moreover have "length (listeners w) - Suc i < n" using Suc.prems(2) True by simp
    ultimately show ?thesis using True Suc.IH[OF Suc.prems(1)] by simp
  qed
qed

lemma candidate_value: "(\<And>f. partial \<noteq> Fn f) \<Longrightarrow> candidate code n partial w = Some (Ret partial w)"
  by (cases partial) (auto simp: candidate_def)

lemma no_setState_Return: "no_setState (Return v)"
  unfolding no_setState_def
proof (intro allI notI)
  fix x r k
  assume "CallSetState x r k \<in> nodes (Return v)"
  then have "Return v = CallSetState x r k \<or> (\<exists>q. q \<in> nodes (Return v) \<and> q \<noteq> Return v)"
    by (induction rule: nodes.induct) auto
  moreover have "q \<in> nodes (Return v) \<Longrightarrow> q = Return v" for q
    by (induction rule: nodes.induct) auto
  ultimately show False by auto
qed

lemma setStates_initialState:
  "setStates code n calls w = Some out \<Longrightarrow> initialState (world_of out) = initialState w"
  by (rule setStates_related [where R = "\<lambda>w w'. initialState w' = initialState w"])
     (simp_all add: run_initialState [THEN conjunct2, THEN conjunct1, rule_format])

lemma setStates_heap_le:
  "setStates code n calls w = Some out \<Longrightarrow> heap_le (heap w) (heap (world_of out))"
  by (rule setStates_related [where R = "\<lambda>w w'. heap_le (heap w) (heap w')"])
     (auto intro: heap_le_trans simp: run_heap_le [THEN conjunct2, THEN conjunct1, rule_format])

lemma createStoreImpl_Created:
  "createStoreImpl code n createState h tr = Some (Created api w) \<longleftrightarrow>
     (\<exists>v w0. exec code n createState (new_store h (tr @ [InitializerCalled])) = Some (Ret v w0)
        \<and> w = w0\<lparr>state := v, initialState := Some v\<rparr>
        \<and> api = \<lparr>api_setState = setState code, api_getState = getState,
                  api_getInitialState = getInitialState, api_subscribe = subscribe\<rparr>)"
  by (auto simp: createStoreImpl_def Let_def split: option.splits outcome.splits)

lemma no_init_trans: "no_init w1 w2 \<Longrightarrow> no_init w2 w3 \<Longrightarrow> no_init w1 w3"
proof -
  assume "no_init w1 w2" "no_init w2 w3"
  then obtain e1 e2 where "trace w2 = trace w1 @ e1" "InitializerCalled \<notin> set e1"
    "trace w3 = trace w2 @ e2" "InitializerCalled \<notin> set e2"
    unfolding no_init_def by blast
  then have "trace w3 = trace w1 @ (e1 @ e2) \<and> InitializerCalled \<notin> set (e1 @ e2)" by simp
  then show ?thesis unfolding no_init_def by blast
qed

lemma no_init_one:
  "trace w' = trace w @ [e] \<Longrightarrow> e \<noteq> InitializerCalled \<Longrightarrow> no_init w w'"
  unfolding no_init_def by auto

lemma no_init_silent: "trace w' = trace w \<Longrightarrow> no_init w w'"
  unfolding no_init_def by simp

lemma run_no_init:
  "(\<forall>p w out. exec code n p w = Some out \<longrightarrow> no_init w (world_of out))
 \<and> (\<forall>partial replace w out. setState code n partial replace w = Some out \<longrightarrow> no_init w (world_of out))
 \<and> (\<forall>i prev w out. forEach code n i prev w = Some out \<longrightarrow> no_init w (world_of out))"
proof (rule run_related [where R = no_init])
  show "no_init w w" for w by (rule no_init_silent) simp
  show "no_init w1 w2 \<Longrightarrow> no_init w2 w3 \<Longrightarrow> no_init w1 w3" for w1 w2 w3
    by (rule no_init_trans)
  show "no_init w (w\<lparr>heap := snd (new_object ps (heap w))\<rparr>)" for ps w
    by (rule no_init_silent) simp
  show "no_init w (snd (subscribe l w))" for l w
    by (rule no_init_one [where e = "Subscribed l"]) (simp_all add: subscribe_def)
  show "no_init w (snd (unsubscribe l w))" for l w
    by (rule no_init_one [where e = "Unsubscribed l"]) (simp_all add: unsubscribe_def)
  show "no_init w (assign_state v r w)" for v r w
    by (rule no_init_silent) simp
  show "no_init w (w\<lparr>trace := trace w @ [ListenerCalled l (state w) p]\<rparr>)" for l p w
    by (rule no_init_one [where e = "ListenerCalled l (state w) p"]) simp_all
qed

lemma nodes_Return: "q \<in> nodes (Return v) \<Longrightarrow> q = Return v"
  by (induction rule: nodes.induct) auto

lemma nodes_CallSubscribe: "q' \<in> nodes (CallSubscribe l q) \<Longrightarrow> q' = CallSubscribe l q \<or> q' \<in> nodes q"
  by (induction rule: nodes.induct) (auto intro: nodes.intros)

lemma nodes_CallUnsubscribe: "q' \<in> nodes (CallUnsubscribe l q) \<Longrightarrow> q' = CallUnsubscribe l q \<or> q' \<in> nodes q"
  by (induction rule: nodes.induct) (auto intro: nodes.intros)

lemma normal_nodes_Return: "q \<in> normal_nodes (Return v) \<Longrightarrow> q = Return v"
  by (induction rule: normal_nodes.induct) auto

lemma normal_nodes_CallSubscribe:
  "q' \<in> normal_nodes (CallSubscribe l q) \<Longrightarrow> q' = CallSubscribe l q \<or> q' \<in> normal_nodes q"
  by (induction rule: normal_nodes.induct) (auto intro: normal_nodes.intros)

lemma normal_nodes_CallUnsubscribe:
  "q' \<in> normal_nodes (CallUnsubscribe l q) \<Longrightarrow> q' = CallUnsubscribe l q \<or> q' \<in> normal_nodes q"
  by (induction rule: normal_nodes.induct) (auto intro: normal_nodes.intros)

lemma normal_nodes_CallSetState:
  "q' \<in> normal_nodes (CallSetState x r ke) \<Longrightarrow>
   q' = CallSetState x r ke \<or> q' \<in> normal_nodes (ke None)"
  by (induction rule: normal_nodes.induct) (auto intro: normal_nodes.intros)

lemma no_throw_Return: "no_throw (Return v)"
  unfolding no_throw_def by (auto dest: normal_nodes_Return)

lemma no_throw_CallSubscribe: "no_throw q \<Longrightarrow> no_throw (CallSubscribe l q)"
  unfolding no_throw_def by (auto dest: normal_nodes_CallSubscribe)

lemma no_throw_CallUnsubscribe: "no_throw q \<Longrightarrow> no_throw (CallUnsubscribe l q)"
  unfolding no_throw_def by (auto dest: normal_nodes_CallUnsubscribe)

lemma no_throw_CallSetState: "no_throw (ke None) \<Longrightarrow> no_throw (CallSetState x r ke)"
  unfolding no_throw_def by (auto dest: normal_nodes_CallSetState)

lemma no_setState_CallSubscribe: "no_setState q \<Longrightarrow> no_setState (CallSubscribe l q)"
  unfolding no_setState_def by (auto dest: nodes_CallSubscribe)

lemma no_setState_CallUnsubscribe: "no_setState q \<Longrightarrow> no_setState (CallUnsubscribe l q)"
  unfolding no_setState_def by (auto dest: nodes_CallUnsubscribe)

lemma registered_after_keeps:
  "l \<in> R \<Longrightarrow> l \<in> registered_after R es \<or> Unsubscribed l \<in> set es"
  by (induction R es rule: registered_after.induct) auto

lemma setStates_faithful: "setStates code n calls w = Some out \<Longrightarrow> faithful w (world_of out)"
  by (rule setStates_related [where R = faithful])
     (auto intro: faithful_refl faithful_trans
       simp: run_faithful [THEN conjunct2, THEN conjunct1, rule_format])

lemma setStates_returns:
  assumes "\<And>f args. no_throw (code f args)"
  shows "initialState w \<noteq> None \<Longrightarrow> setStates code n calls w = Some out \<Longrightarrow> returned out"
proof (induction calls arbitrary: w)
  case Nil
  then show ?case by auto
next
  case (Cons c calls)
  obtain partial replace where c: "c = (partial, replace)" by (cases c)
  from Cons.prems c obtain r where r: "setState code n partial replace w = Some r"
    by (auto split: option.splits)
  from run_returns [OF assms, where n = n, THEN conjunct2, THEN conjunct1, rule_format, OF Cons.prems(1) r]
  obtain v w' where rv: "r = Ret v w'" by (cases r) auto
  from run_initialState [of code n, THEN conjunct2, THEN conjunct1, rule_format, OF r] rv Cons.prems(1)
  have "initialState w' \<noteq> None" by simp
  moreover from Cons.prems(2) c r rv have "setStates code n calls w' = Some out" by simp
  ultimately show ?case by (rule Cons.IH)
qed

text \<open>
  An accepted \<^verbatim>\<open>setState\<close> that returns has called every listener that is in the set
  when it returns, with the previous snapshot as second argument.
\<close>

lemma setState_notifies:
  assumes "candidate code n partial w = Some (Ret v w1)" and "v \<noteq> state w1"
    and "setState code (Suc n) partial replace w = Some (Ret u w')" and "l \<in> registered w'"
  shows "\<exists>s. ListenerCalled l s (state w1) \<in> set (events_since w1 w')"
proof -
  let ?wa = "assign_state v replace w1"
  from assms(1-3) have f: "forEach code n 0 (state w1) ?wa = Some (Ret u w')"
    by (simp add: setState_candidate del: setState.simps)
  from assms(4) obtain k where "k < length (listeners w')" "listeners w' ! k = Some l"
    unfolding registered_def by (auto simp: in_set_conv_nth)
  from forEach_calls_all [OF f _ this] have "\<exists>s. ListenerCalled l s (state w1) \<in> set (events_since ?wa w')"
    by simp
  then show ?thesis by (simp add: events_since_def)
qed

text \<open>The equations of the three functions at a numeral amount of fuel.\<close>

lemmas exec_numeral = exec.simps(2-10) [where n = "pred_numeral k", folded numeral_eq_Suc] for k

lemmas setState_numeral = setState.simps(2) [where n = "pred_numeral k", folded numeral_eq_Suc] for k

lemmas forEach_numeral = forEach.simps(2) [where n = "pred_numeral k", folded numeral_eq_Suc] for k

lemmas fuel_numeral = exec_numeral setState_numeral forEach_numeral

lemma hub_run:
  "setStates hub_code 7 [(Num 1, None), (Num 2, None)] hub_world = Some (Ret Undefined hub_later)"
  by (simp add: fuel_numeral Let_def hub_code_def hub_world_def hub_later_def assign_state_def
      typeof_def subscribe_def unsubscribe_def Set_add_def Set_delete_def)

lemma hub_no_throw: "no_throw (hub_code f args)"
  by (simp add: hub_code_def no_throw_Return no_throw_CallSubscribe no_throw_CallUnsubscribe)

lemma Set_delete_nth:
  "length (Set_delete l es) = length es"
  "k < length es \<Longrightarrow> es ! k \<noteq> Some l \<Longrightarrow> Set_delete l es ! k = es ! k"
  "Some l \<notin> set (Set_delete l es)"
  by (auto simp: Set_delete_def)

lemma Set_delete_absent: "Some l \<notin> set es \<Longrightarrow> Set_delete l es = es"
  by (induction es) (auto simp: Set_delete_def)

lemma setState_faithful:
  "setState code n partial replace w = Some out \<Longrightarrow> faithful w (world_of out)"
  using run_faithful [of code n, THEN conjunct2, THEN conjunct1] by blast

lemma candidate_trace:
  "candidate code n partial w = Some out \<Longrightarrow> \<exists>evs. trace (world_of out) = trace w @ evs"
  using run_trace [of code n, THEN conjunct1]
  by (cases partial) (auto simp: candidate_def)

lemma hub_no_setState: "no_setState (hub_code f args)"
  by (simp add: hub_code_def no_setState_Return no_setState_CallSubscribe no_setState_CallUnsubscribe)

text \<open>
  Where every function of the program returns at once, a notification pass returns,
  given fuel for the slots it has to visit.
\<close>

lemma forEach_passive:
  assumes "\<forall>f args. \<exists>r. code f args = Return r"
  shows "length (listeners w) - i < n \<Longrightarrow> \<exists>u w'. forEach code n i prev w = Some (Ret u w')"
proof (induction n arbitrary: i w)
  case 0
  then show ?case by simp
next
  case (Suc n)
  show ?case
  proof (cases "i < length (listeners w)")
    case False
    then show ?thesis by simp
  next
    case True
    with Suc.prems obtain m where n: "n = Suc m" by (cases n) auto
    show ?thesis
    proof (cases "listeners w ! i")
      case None
      have "length (listeners w) - Suc i < n" using Suc.prems True by simp
      from Suc.IH [OF this] None True show ?thesis by simp
    next
      case (Some l)
      let ?w = "w\<lparr>trace := trace w @ [ListenerCalled l (state w) prev]\<rparr>"
      from assms obtain r where r: "code l [state w, prev] = Return r" by blast
      have e: "exec code n (code l [state w, prev]) ?w = Some (Ret r ?w)" by (simp add: r n)
      have "length (listeners ?w) - Suc i < n" using Suc.prems True by simp
      from Suc.IH [OF this] obtain u w' where "forEach code n (Suc i) prev ?w = Some (Ret u w')"
        by blast
      with e Some True show ?thesis by simp
    qed
  qed
qed

text \<open>
  A relation that holds across the effects other than the assignment holds across every
  function call that comes to no call of \<^verbatim>\<open>setState\<close>, and across every notification
  pass during which no listener comes to one.
\<close>

lemma uninterrupted_run_related:
  fixes R :: "world \<Rightarrow> world \<Rightarrow> bool"
  assumes refl: "\<And>w. R w w"
    and trans: "\<And>w1 w2 w3. R w1 w2 \<Longrightarrow> R w2 w3 \<Longrightarrow> R w1 w3"
    and new: "\<And>ps w. R w (w\<lparr>heap := snd (new_object ps (heap w))\<rparr>)"
    and sub: "\<And>l w. R w (snd (subscribe l w))"
    and unsub: "\<And>l w. R w (snd (unsubscribe l w))"
    and call: "\<And>i l w. i < length (listeners w) \<Longrightarrow> listeners w ! i = Some l \<Longrightarrow>
                 R w (w\<lparr>trace := trace w @ [ListenerCalled l (state w) prev]\<rparr>)"
  shows "(\<forall>p w out. \<not> calls_setState n p w \<longrightarrow> exec code n p w = Some out \<longrightarrow> R w (world_of out))
       \<and> (\<forall>i w out. \<not> pass_calls_setState code n i prev w \<longrightarrow>
             forEach code n i prev w = Some out \<longrightarrow> R w (world_of out))"
proof (induction n)
  case 0
  show ?case by simp
next
  case (Suc n)
  then have IHe: "\<And>p w out. \<not> calls_setState n p w \<Longrightarrow> exec code n p w = Some out \<Longrightarrow> R w (world_of out)"
    and IHf: "\<And>i w out. \<not> pass_calls_setState code n i prev w \<Longrightarrow>
                forEach code n i prev w = Some out \<Longrightarrow> R w (world_of out)"
    by blast+
  have E: "R w (world_of out)"
    if q: "\<not> calls_setState (Suc n) p w" and run: "exec code (Suc n) p w = Some out" for p w out
  proof (cases p)
    case (Return v)
    with run show ?thesis by (auto simp: refl)
  next
    case (Throw e)
    with run show ?thesis by (auto simp: refl)
  next
    case (New ps k)
    let ?w = "w\<lparr>heap := snd (new_object ps (heap w))\<rparr>"
    from run New have 1: "exec code n (k (Obj (fresh (heap w)))) ?w = Some out"
      by (simp add: new_object_def)
    from q New have "\<not> calls_setState n (k (Obj (fresh (heap w)))) ?w"
      by (simp add: new_object_def)
    from IHe[OF this 1] new[of w ps] show ?thesis by (rule trans[rotated])
  next
    case (Look k)
    with q run IHe show ?thesis by simp
  next
    case (CallSetState partial replace k)
    with q show ?thesis by simp
  next
    case (CallGetState k)
    with q run IHe show ?thesis by simp
  next
    case (CallGetInitialState k)
    with q run IHe show ?thesis by (auto simp: refl split: sum.splits)
  next
    case (CallSubscribe l k)
    with q have k: "\<not> calls_setState n k (snd (subscribe l w))" by simp
    from run CallSubscribe have "exec code n k (snd (subscribe l w)) = Some out" by simp
    from sub[of w l] IHe[OF k this] show ?thesis by (rule trans)
  next
    case (CallUnsubscribe l k)
    with q have k: "\<not> calls_setState n k (snd (unsubscribe l w))" by simp
    from run CallUnsubscribe have "exec code n k (snd (unsubscribe l w)) = Some out" by simp
    from unsub[of w l] IHe[OF k this] show ?thesis by (rule trans)
  qed
  have F: "R w (world_of out)"
    if q: "\<not> pass_calls_setState code (Suc n) i prev w"
      and run: "forEach code (Suc n) i prev w = Some out" for i w out
  proof (cases "i < length (listeners w)")
    case False
    with run show ?thesis by (auto simp: refl)
  next
    case True
    show ?thesis
    proof (cases "listeners w ! i")
      case None
      with q run True IHf show ?thesis by simp
    next
      case (Some l)
      let ?w = "w\<lparr>trace := trace w @ [ListenerCalled l (state w) prev]\<rparr>"
      from run True Some obtain r where r: "exec code n (code l [state w, prev]) ?w = Some r"
        by (auto split: option.splits)
      from q True Some have ql: "\<not> calls_setState n (code l [state w, prev]) ?w" by simp
      have 1: "R w (world_of r)" using call[OF True Some] IHe[OF ql r] by (rule trans)
      show ?thesis
      proof (cases r)
        case (Exc e w')
        with run True Some r have "out = Exc e w'" by simp
        with 1 Exc show ?thesis by simp
      next
        case (Ret v w')
        with run True Some r have f: "forEach code n (Suc i) prev w' = Some out" by simp
        from q True Some r Ret have "\<not> pass_calls_setState code n (Suc i) prev w'" by simp
        from IHf[OF this f] 1 Ret show ?thesis by (auto intro: trans)
      qed
    qed
  qed
  from E F show ?case by blast
qed

text \<open>
  A notification pass during which no listener comes to a call of \<^verbatim>\<open>setState\<close> leaves
  the snapshot alone, and every listener it calls is handed the snapshot and the
  previous snapshot of the pass.
\<close>

lemma uninterrupted_forEach:
  assumes "\<not> pass_calls_setState code n i prev w" and "forEach code n i prev w = Some out"
  shows "quiet_step prev w (world_of out)"
proof -
  have "(\<forall>p w out. \<not> calls_setState n p w \<longrightarrow> exec code n p w = Some out \<longrightarrow> quiet_step prev w (world_of out))
      \<and> (\<forall>i w out. \<not> pass_calls_setState code n i prev w \<longrightarrow>
            forEach code n i prev w = Some out \<longrightarrow> quiet_step prev w (world_of out))"
  proof (rule uninterrupted_run_related [where R = "quiet_step prev"])
    show "quiet_step prev w w" for w by (rule quiet_step_refl)
    show "quiet_step prev w1 w2 \<Longrightarrow> quiet_step prev w2 w3 \<Longrightarrow> quiet_step prev w1 w3" for w1 w2 w3
      by (rule quiet_step_trans)
    show "quiet_step prev w (w\<lparr>heap := snd (new_object ps (heap w))\<rparr>)" for ps w
      by (simp add: quiet_step_def)
    show "quiet_step prev w (snd (subscribe l w))" for l w
      by (rule quiet_step_one [where e = "Subscribed l"]) (simp_all add: subscribe_def)
    show "quiet_step prev w (snd (unsubscribe l w))" for l w
      by (rule quiet_step_one [where e = "Unsubscribed l"]) (simp_all add: unsubscribe_def)
    show "quiet_step prev w (w\<lparr>trace := trace w @ [ListenerCalled l (state w) prev]\<rparr>)" for l w
      by (rule quiet_step_one [where e = "ListenerCalled l (state w) prev"]) simp_all
  qed
  from this [THEN conjunct2, rule_format, OF assms] show ?thesis .
qed

text \<open>The first call a notification pass records is the call of a listener with the snapshot
  and the previous snapshot of the pass.\<close>

lemma forEach_first_call:
  "forEach code n i prev w = Some out \<Longrightarrow>
   events_since w (world_of out) = []
   \<or> (\<exists>l rest. events_since w (world_of out) = ListenerCalled l (state w) prev # rest)"
proof (induction n arbitrary: i)
  case 0
  then show ?case by simp
next
  case (Suc n)
  show ?case
  proof (cases "i < length (listeners w)")
    case False
    with Suc.prems show ?thesis by (auto simp: events_since_def)
  next
    case True
    show ?thesis
    proof (cases "listeners w ! i")
      case None
      with Suc.prems True have "forEach code n (Suc i) prev w = Some out" by simp
      then show ?thesis by (rule Suc.IH)
    next
      case (Some l)
      let ?w = "w\<lparr>trace := trace w @ [ListenerCalled l (state w) prev]\<rparr>"
      from Suc.prems True Some obtain r where r: "exec code n (code l [state w, prev]) ?w = Some r"
        and rest: "out = r \<or> (\<exists>v w'. r = Ret v w' \<and> forEach code n (Suc i) prev w' = Some out)"
        by (auto split: option.splits outcome.splits)
      from run_trace [of code n, THEN conjunct1, rule_format, OF r]
      obtain e1 where e1: "trace (world_of r) = trace w @ ListenerCalled l (state w) prev # e1"
        by auto
      from rest have "\<exists>e2. trace (world_of out) = trace (world_of r) @ e2"
      proof
        assume "out = r"
        then show ?thesis by simp
      next
        assume "\<exists>v w'. r = Ret v w' \<and> forEach code n (Suc i) prev w' = Some out"
        then obtain v w' where "r = Ret v w'" and f: "forEach code n (Suc i) prev w' = Some out"
          by blast
        with run_trace [of code n, THEN conjunct2, THEN conjunct2, rule_format, OF f]
        show ?thesis by simp
      qed
      then obtain e2 where "trace (world_of out) = trace (world_of r) @ e2" by blast
      with e1 have "events_since w (world_of out) = ListenerCalled l (state w) prev # e1 @ e2"
        by (simp add: events_since_def)
      then show ?thesis by blast
    qed
  qed
qed

lemmas calls_setState_numeral =
  calls_setState.simps(2-10) [where n = "pred_numeral k", folded numeral_eq_Suc] for k

lemmas pass_calls_setState_numeral =
  pass_calls_setState.simps(2) [where n = "pred_numeral k", folded numeral_eq_Suc] for k

lemmas pass_numeral = fuel_numeral calls_setState_numeral pass_calls_setState_numeral

section \<open>The claims\<close>

text \<open>
  C1. Let the candidate of a \<^verbatim>\<open>setState\<close> call (the value passed, or what the function
  passed returns) be an object \<open>c\<close>, and the snapshot at that moment another object \<open>p\<close>.
  With \<^verbatim>\<open>replace = false\<close> the call assigns a new object whose properties are those
  of \<open>p\<close> overwritten by those of \<open>c\<close> (\<open>++\<close> on property maps: the candidate's value
  where it has the property, the snapshot's elsewhere; a property that is itself an
  object is kept as the same reference); with \<^verbatim>\<open>replace = true\<close> it assigns \<open>c\<close>
  itself, so that the properties of the snapshot are exactly those of \<open>c\<close>. The listeners
  are then notified from that world (\<open>forEach\<close>). Where no function of the program calls
  \<^verbatim>\<open>setState\<close> again, that snapshot is the snapshot in whatever the call comes to; with
  no listener registered the call returns it. The instance below is the example of the
  specification: \<^verbatim>\<open>{a: 0, b: 2}\<close> and \<^verbatim>\<open>{a: 1}\<close> give \<^verbatim>\<open>{a: 1, b: 2}\<close>, or exactly
  \<^verbatim>\<open>{a: 1}\<close> when replacing.
\<close>

theorem setState_shallow_merge_law:
  assumes "candidate code n partial w = Some (Ret (Obj c) wc)"
    and "state wc = Obj p" and "p < fresh (heap wc)" and "c < fresh (heap wc)" and "c \<noteq> p"
    and "merged = own_props (heap wc) (Obj p) ++ own_props (heap wc) (Obj c)"
    and "w1 = assign_state (Obj c) (Some False) wc"
    and "w2 = assign_state (Obj c) (Some True) wc"
  shows "state w1 = Obj (fresh (heap wc)) \<and> own_props (heap w1) (state w1) = merged
       \<and> w2 = wc\<lparr>state := Obj c\<rparr>
       \<and> setState code (Suc n) partial (Some False) w = forEach code n 0 (Obj p) w1
       \<and> setState code (Suc n) partial (Some True) w = forEach code n 0 (Obj p) w2
       \<and> ((\<forall>f args. no_setState (code f args)) \<longrightarrow>
             (\<forall>out. setState code (Suc n) partial (Some False) w = Some out \<longrightarrow>
                state (world_of out) = state w1
                \<and> own_props (heap (world_of out)) (state (world_of out)) = merged)
           \<and> (\<forall>out. setState code (Suc n) partial (Some True) w = Some out \<longrightarrow>
                state (world_of out) = Obj c
                \<and> own_props (heap (world_of out)) (state (world_of out)) = own_props (heap wc) (Obj c)))
       \<and> (registered wc = {} \<and> length (listeners wc) < n \<longrightarrow>
             setState code (Suc n) partial (Some False) w = Some (Ret Undefined w1)
             \<and> setState code (Suc n) partial (Some True) w = Some (Ret Undefined w2))"
proof -
  note cand = assms(1) and sp = assms(2) and w1_def = assms(7)
  have alloc: "allocated (heap wc) (state wc)" "allocated (heap wc) (Obj c)"
    using assms(2-4) by (simp_all add: allocated_def)
  have ne: "Obj c \<noteq> state wc" using assms(2,5) by simp
  have s1: "state w1 = Obj (fresh (heap wc))"
    unfolding w1_def using alloc by (simp add: assign_state_merge(1))
  have p1: "own_props (heap w1) (state w1) = merged"
    unfolding s1 unfolding w1_def assms(6) using alloc sp by (simp add: assign_state_merge(2))
  have fr1: "fresh (heap w1) = Suc (fresh (heap wc))"
    unfolding w1_def using alloc by (simp add: assign_state_merge(3))
  have w2: "w2 = wc\<lparr>state := Obj c\<rparr>"
    unfolding assms(8) by (simp add: assign_state_replace)
  have l1: "listeners w1 = listeners wc" by (simp add: w1_def)
  have merge: "setState code (Suc n) partial (Some False) w = forEach code n 0 (Obj p) w1"
    using ne sp by (simp add: setState_candidate cand w1_def del: setState.simps)
  have repl: "setState code (Suc n) partial (Some True) w = forEach code n 0 (Obj p) w2"
    using ne sp by (simp add: setState_candidate cand assms(8) del: setState.simps)
  have quiet: "state (world_of out) = state w1 \<and> own_props (heap (world_of out)) (state (world_of out)) = merged"
    if q: "\<forall>f args. no_setState (code f args)"
      and run: "setState code (Suc n) partial (Some False) w = Some out" for out
  proof -
    from run merge have f: "forEach code n 0 (Obj p) w1 = Some out" by simp
    from q have q': "\<And>f args. no_setState (code f args)" by blast
    from quiet_forEach[OF q' f] have 1: "state (world_of out) = state w1"
      by (simp add: quiet_step_def)
    from run_heap_le[of code n, THEN conjunct2, THEN conjunct2, rule_format, OF f]
    have "heap_le (heap w1) (heap (world_of out))" .
    moreover have "allocated (heap w1) (state w1)" by (simp add: s1 fr1 allocated_def)
    ultimately have "own_props (heap (world_of out)) (state w1) = own_props (heap w1) (state w1)"
      by (rule own_props_heap_le)
    with 1 p1 show ?thesis by simp
  qed
  have quiet2: "state (world_of out) = Obj c
      \<and> own_props (heap (world_of out)) (state (world_of out)) = own_props (heap wc) (Obj c)"
    if q: "\<forall>f args. no_setState (code f args)"
      and run: "setState code (Suc n) partial (Some True) w = Some out" for out
  proof -
    from run repl have f: "forEach code n 0 (Obj p) w2 = Some out" by simp
    from q have q': "\<And>f args. no_setState (code f args)" by blast
    from quiet_forEach[OF q' f] have 1: "state (world_of out) = Obj c"
      by (simp add: quiet_step_def w2)
    from run_heap_le[of code n, THEN conjunct2, THEN conjunct2, rule_format, OF f]
    have "heap_le (heap wc) (heap (world_of out))" by (simp add: w2)
    from own_props_heap_le[OF this alloc(2)] 1 show ?thesis by simp
  qed
  have none: "setState code (Suc n) partial (Some False) w = Some (Ret Undefined w1)
         \<and> setState code (Suc n) partial (Some True) w = Some (Ret Undefined w2)"
    if "registered wc = {} \<and> length (listeners wc) < n"
  proof -
    from that have r: "registered wc = {}" and n: "length (listeners wc) < n" by blast+
    have "registered w1 = {}" "registered w2 = {}" using r l1 w2 by (simp_all add: registered_def)
    moreover have "length (listeners w1) - 0 < n" "length (listeners w2) - 0 < n"
      using n l1 w2 by simp_all
    ultimately show ?thesis
      unfolding merge repl by (simp add: forEach_empty_set)
  qed
  show ?thesis
  proof (intro conjI allI impI)
    show "state w1 = Obj (fresh (heap wc))" by (rule s1)
    show "own_props (heap w1) (state w1) = merged" by (rule p1)
    show "w2 = wc\<lparr>state := Obj c\<rparr>" by (rule w2)
    show "setState code (Suc n) partial (Some False) w = forEach code n 0 (Obj p) w1"
      by (rule merge)
    show "setState code (Suc n) partial (Some True) w = forEach code n 0 (Obj p) w2"
      by (rule repl)
    show "state (world_of out) = state w1"
      if "\<forall>f args. no_setState (code f args)"
        and "setState code (Suc n) partial (Some False) w = Some out" for out
      using quiet[OF that] by (rule conjunct1)
    show "own_props (heap (world_of out)) (state (world_of out)) = merged"
      if "\<forall>f args. no_setState (code f args)"
        and "setState code (Suc n) partial (Some False) w = Some out" for out
      using quiet[OF that] by (rule conjunct2)
    show "state (world_of out) = Obj c"
      if "\<forall>f args. no_setState (code f args)"
        and "setState code (Suc n) partial (Some True) w = Some out" for out
      using quiet2[OF that] by (rule conjunct1)
    show "own_props (heap (world_of out)) (state (world_of out)) = own_props (heap wc) (Obj c)"
      if "\<forall>f args. no_setState (code f args)"
        and "setState code (Suc n) partial (Some True) w = Some out" for out
      using quiet2[OF that] by (rule conjunct2)
    show "setState code (Suc n) partial (Some False) w = Some (Ret Undefined w1)"
      if "registered wc = {} \<and> length (listeners wc) < n"
      using none[OF that] by (rule conjunct1)
    show "setState code (Suc n) partial (Some True) w = Some (Ret Undefined w2)"
      if "registered wc = {} \<and> length (listeners wc) < n"
      using none[OF that] by (rule conjunct2)
  qed
qed

theorem setState_shallow_merge_law_witness:
  "candidate merge_code 2 (Obj 1) merge_world = Some (Ret (Obj 1) merge_world)
   \<and> state merge_world = Obj 0 \<and> 0 < fresh (heap merge_world) \<and> 1 < fresh (heap merge_world)
   \<and> own_props (heap merge_world) (Obj 0) = [''a'' \<mapsto> Num 0, ''b'' \<mapsto> Num 2]
   \<and> own_props (heap merge_world) (Obj 1) = [''a'' \<mapsto> Num 1]
   \<and> setState merge_code (Suc 2) (Obj 1) (Some False) merge_world = Some (Ret Undefined merged_world)
   \<and> state merged_world = Obj 2
   \<and> own_props (heap merged_world) (state merged_world) = [''a'' \<mapsto> Num 1, ''b'' \<mapsto> Num 2]
   \<and> trace merged_world = [ListenerCalled 1 (Obj 2) (Obj 0)]
   \<and> setState merge_code (Suc 2) (Obj 1) (Some True) merge_world = Some (Ret Undefined replaced_world)
   \<and> state replaced_world = Obj 1
   \<and> own_props (heap replaced_world) (state replaced_world) = [''a'' \<mapsto> Num 1]
   \<and> setState counter_code (Suc 3) (Fn 5) (Some False) counter_world = Some (Ret Undefined counter_updated)
   \<and> own_props (heap counter_updated) (state counter_updated) = [''count'' \<mapsto> Num 1]"
proof -
  have c: "candidate merge_code 2 (Obj 1) merge_world = Some (Ret (Obj 1) merge_world)"
    by (simp add: candidate_def)
  have h: "state merge_world = Obj 0" "0 < fresh (heap merge_world)" "1 < fresh (heap merge_world)"
    "(1::nat) \<noteq> 0"
    by (simp_all add: merge_world_def)
  have p0: "own_props (heap merge_world) (Obj 0) = [''a'' \<mapsto> Num 0, ''b'' \<mapsto> Num 2]"
    and p1: "own_props (heap merge_world) (Obj 1) = [''a'' \<mapsto> Num 1]"
    by (simp_all add: merge_world_def own_props_def)
  have m: "[''a'' \<mapsto> Num 0, ''b'' \<mapsto> Num 2] ++ [''a'' \<mapsto> Num 1] = [''a'' \<mapsto> Num 1, ''b'' \<mapsto> Num 2]"
    by (auto simp: fun_eq_iff map_add_def)
  have q: "\<forall>f args. no_setState (merge_code f args)"
    by (simp add: merge_code_def no_setState_Return)
  have r1: "setState merge_code (Suc 2) (Obj 1) (Some False) merge_world = Some (Ret Undefined merged_world)"
    by (simp add: fuel_numeral Let_def merge_world_def merged_world_def merge_code_def assign_state_def
        new_object_def Object_assign_def assign_from_def own_props_def)
  have r2: "setState merge_code (Suc 2) (Obj 1) (Some True) merge_world = Some (Ret Undefined replaced_world)"
    by (simp add: fuel_numeral Let_def merge_world_def replaced_world_def merge_code_def assign_state_def)
  note law = setState_shallow_merge_law [OF c h refl refl refl]
  note fg = law [THEN conjunct2, THEN conjunct2, THEN conjunct2, THEN conjunct2, THEN conjunct2,
      THEN conjunct1, THEN mp, OF q]
  from fg have a: "\<forall>out. setState merge_code (Suc 2) (Obj 1) (Some False) merge_world = Some out \<longrightarrow>
      state (world_of out) = state (assign_state (Obj 1) (Some False) merge_world)
      \<and> own_props (heap (world_of out)) (state (world_of out))
          = own_props (heap merge_world) (Obj 0) ++ own_props (heap merge_world) (Obj 1)"
    by (rule conjunct1)
  from fg have b: "\<forall>out. setState merge_code (Suc 2) (Obj 1) (Some True) merge_world = Some out \<longrightarrow>
      state (world_of out) = Obj 1
      \<and> own_props (heap (world_of out)) (state (world_of out)) = own_props (heap merge_world) (Obj 1)"
    by (rule conjunct2)
  from law have s: "state (assign_state (Obj 1) (Some False) merge_world) = Obj (fresh (heap merge_world))"
    by (rule conjunct1)
  have f: "fresh (heap merge_world) = 2" by (simp add: merge_world_def)
  from a [rule_format, OF r1]
  have A: "state merged_world = Obj 2
      \<and> own_props (heap merged_world) (state merged_world) = [''a'' \<mapsto> Num 1, ''b'' \<mapsto> Num 2]"
    unfolding world_of.simps s f p0 p1 m .
  from b [rule_format, OF r2]
  have B: "state replaced_world = Obj 1
      \<and> own_props (heap replaced_world) (state replaced_world) = [''a'' \<mapsto> Num 1]"
    unfolding world_of.simps p1 .
  have t: "trace merged_world = [ListenerCalled 1 (Obj 2) (Obj 0)]"
    by (simp add: merged_world_def)
  have u: "setState counter_code (Suc 3) (Fn 5) (Some False) counter_world = Some (Ret Undefined counter_updated)"
    by (simp add: fuel_numeral Let_def counter_code_def counter_world_def counter_updated_def
        assign_state_def new_object_def Object_assign_def assign_from_def own_props_def
        numeral_2_eq_2)
  have up: "own_props (heap counter_updated) (state counter_updated) = [''count'' \<mapsto> Num 1]"
    by (simp add: counter_updated_def own_props_def)
  from c h(1-3) p0 p1 r1 A t r2 B u up show ?thesis
    by (intro conjI) (erule conjunct1 conjunct2 | assumption)+
qed

text \<open>
  C2. A call of \<^verbatim>\<open>setState\<close> whose candidate (the value passed, or what the function
  passed returns for the current snapshot) is identical to the current snapshot does
  nothing more: it returns in the very world in which the candidate was computed, so the
  snapshot is unchanged and no listener is called (the record of calls is unchanged).
  Any sequence of calls whose candidates are the current snapshot leaves the world as it
  is. The comparison is the only filter: a candidate that differs by identity is
  assigned and the listeners are notified, whatever its content.
\<close>

theorem setState_identical_candidate_is_noop:
  "(candidate code n partial w = Some (Ret (state w1) w1) \<longrightarrow>
      setState code (Suc n) partial replace w = Some (Ret Undefined w1))
   \<and> ((\<forall>(p, r) \<in> set calls. candidate code n p w = Some (Ret (state w) w)) \<longrightarrow>
      setStates code (Suc n) calls w = Some (Ret Undefined w))
   \<and> (candidate code n partial w = Some (Ret v w1) \<and> v \<noteq> state w1 \<longrightarrow>
      setState code (Suc n) partial replace w
        = forEach code n 0 (state w1) (assign_state v replace w1))"
  using setStates_all_noop [of calls code n w]
  by (simp add: setState_candidate del: setState.simps)

theorem setState_identical_candidate_is_noop_witness:
  "candidate same_code 1 (Obj 0) same_world = Some (Ret (state same_world) same_world)
   \<and> candidate same_code 1 (Fn 7) same_world = Some (Ret (state same_world) same_world)
   \<and> setState same_code 2 (Fn 7) None same_world = Some (Ret Undefined same_world)
   \<and> setStates same_code 2 [(Obj 0, None), (Fn 7, Some True), (Obj 0, Some False)] same_world
       = Some (Ret Undefined same_world)
   \<and> candidate same_code 1 (Obj 1) same_world = Some (Ret (Obj 1) same_world)
   \<and> Obj 1 \<noteq> state same_world
   \<and> own_props (heap same_world) (Obj 1) = own_props (heap same_world) (state same_world)
   \<and> setState same_code 2 (Obj 1) (Some True) same_world
       = forEach same_code 1 0 (state same_world) (assign_state (Obj 1) (Some True) same_world)"
proof -
  have c0: "candidate same_code 1 (Obj 0) same_world = Some (Ret (state same_world) same_world)"
    by (simp add: candidate_def same_world_def)
  have c7: "candidate same_code 1 (Fn 7) same_world = Some (Ret (state same_world) same_world)"
    by (simp add: candidate_def same_code_def)
  have c1: "candidate same_code 1 (Obj 1) same_world = Some (Ret (Obj 1) same_world)"
    by (simp add: candidate_def)
  have ne: "Obj 1 \<noteq> state same_world"
    by (simp add: same_world_def)
  have eq: "own_props (heap same_world) (Obj 1) = own_props (heap same_world) (state same_world)"
    by (simp add: same_world_def own_props_def)
  have every: "\<forall>(p, r) \<in> set [(Obj 0, None), (Fn 7, Some True), (Obj 0, Some False)].
               candidate same_code 1 p same_world = Some (Ret (state same_world) same_world)"
    using c0 c7 by simp
  from setState_identical_candidate_is_noop
         [of same_code 1 "Fn 7" same_world same_world None
             "[(Obj 0, None), (Fn 7, Some True), (Obj 0, Some False)]" "Obj 1"]
       setState_identical_candidate_is_noop
         [of same_code 1 "Obj 1" same_world same_world "Some True" "[]" "Obj 1"]
       c0 c7 c1 ne eq every
  show ?thesis
    by (simp add: numeral_2_eq_2 del: setState.simps setStates.simps)
qed

text \<open>
  C3. The claim is that a candidate that is not an object becomes the snapshot, whether
  \<^verbatim>\<open>replace\<close> is omitted or passed as \<^verbatim>\<open>false\<close> (so say the comments at lines 209
  to 210 and 226 to 228 of the source). On a store whose snapshot is the number 0,
  \<^verbatim>\<open>setState(5)\<close> with the flag omitted makes 5 the snapshot, but
  \<^verbatim>\<open>setState(5, false)\<close> does not: the explicit \<^verbatim>\<open>false\<close> is not nullish, so
  the test of the candidate's type is never reached and the snapshot becomes
  \<^verbatim>\<open>Object.assign({}, 0, 5)\<close>, a new empty object.
\<close>

theorem setState_explicit_false_does_not_replace:
  "setState code 2 (Num 5) None
     \<lparr>state = Num 0, initialState = Some (Num 0), listeners = [],
      heap = \<lparr>cells = Map.empty, fresh = 0\<rparr>, trace = []\<rparr>
   = Some (Ret Undefined
     \<lparr>state = Num 5, initialState = Some (Num 0), listeners = [],
      heap = \<lparr>cells = Map.empty, fresh = 0\<rparr>, trace = []\<rparr>)
   \<and> setState code 2 (Num 5) (Some False)
     \<lparr>state = Num 0, initialState = Some (Num 0), listeners = [],
      heap = \<lparr>cells = Map.empty, fresh = 0\<rparr>, trace = []\<rparr>
   = Some (Ret Undefined
     \<lparr>state = Obj 0, initialState = Some (Num 0), listeners = [],
      heap = \<lparr>cells = [0 \<mapsto> Map.empty], fresh = 1\<rparr>, trace = []\<rparr>)"
  by (simp add: numeral_2_eq_2 assign_state_def typeof_def new_object_def Object_assign_def
      assign_from_def own_props_def)

text \<open>
  C4. After the store is constructed, \<^verbatim>\<open>getInitialState()\<close> returns the value the
  initializer returned, and still does after any sequence of \<^verbatim>\<open>setState\<close> calls
  (each with whatever listeners and updaters run in it); the objects that existed at
  construction, the initial snapshot among them, keep their properties.
\<close>

theorem getInitialState_is_constant:
  assumes "createStoreImpl code n createState h tr = Some (Created api w)"
    and "setStates code m calls w = Some out"
  shows "\<exists>v w0. exec code n createState (new_store h (tr @ [InitializerCalled])) = Some (Ret v w0)
        \<and> api_getInitialState api = getInitialState
        \<and> getInitialState w = Inr v \<and> getInitialState (world_of out) = Inr v
        \<and> heap_le (heap w) (heap (world_of out))
        \<and> (allocated (heap w) v \<longrightarrow> own_props (heap (world_of out)) v = own_props (heap w) v)"
proof -
  from assms(1) obtain v w0 where
    e: "exec code n createState (new_store h (tr @ [InitializerCalled])) = Some (Ret v w0)"
    and w: "w = w0\<lparr>state := v, initialState := Some v\<rparr>"
    and api: "api = \<lparr>api_setState = setState code, api_getState = getState,
                  api_getInitialState = getInitialState, api_subscribe = subscribe\<rparr>"
    unfolding createStoreImpl_Created by blast
  have i: "initialState w = Some v" by (simp add: w)
  from setStates_initialState[OF assms(2)] i have i': "initialState (world_of out) = Some v" by simp
  note le = setStates_heap_le[OF assms(2)]
  have "api_getInitialState api = getInitialState" by (simp add: api)
  moreover have "getInitialState w = Inr v" "getInitialState (world_of out) = Inr v"
    using i i' by (simp_all add: getInitialState_def)
  moreover have "allocated (heap w) v \<longrightarrow> own_props (heap (world_of out)) v = own_props (heap w) v"
    using le by (auto intro: own_props_heap_le)
  ultimately show ?thesis using e le by blast
qed

theorem getInitialState_is_constant_witness:
  "createStoreImpl counter_code 3 counter_init \<lparr>cells = Map.empty, fresh = 0\<rparr> []
     = Some (Created counter_api counter_world)
   \<and> setStates counter_code 4 [(Fn 5, None), (Num 7, Some True)] counter_world
     = Some (Ret Undefined counter_later)
   \<and> getInitialState counter_world = Inr (Obj 0)
   \<and> getInitialState counter_later = Inr (Obj 0)
   \<and> getState counter_later = Num 7
   \<and> allocated (heap counter_world) (Obj 0)
   \<and> own_props (heap counter_later) (Obj 0) = own_props (heap counter_world) (Obj 0)"
proof -
  have c: "createStoreImpl counter_code 3 counter_init \<lparr>cells = Map.empty, fresh = 0\<rparr> []
     = Some (Created counter_api counter_world)"
    by (simp add: createStoreImpl_def numeral_3_eq_3 counter_init_def new_store_def new_object_def
        counter_api_def counter_world_def)
  have s: "setStates counter_code 4 [(Fn 5, None), (Num 7, Some True)] counter_world
     = Some (Ret Undefined counter_later)"
    by (simp add: eval_nat_numeral counter_code_def counter_world_def counter_later_def
        assign_state_def new_object_def Object_assign_def assign_from_def own_props_def typeof_def)
  have e: "exec counter_code 3 counter_init (new_store \<lparr>cells = Map.empty, fresh = 0\<rparr> ([] @ [InitializerCalled]))
      = Some (Ret (Obj 0) (counter_world\<lparr>state := Undefined, initialState := None\<rparr>))"
    by (simp add: numeral_3_eq_3 counter_init_def new_store_def new_object_def counter_world_def)
  have a: "allocated (heap counter_world) (Obj 0)"
    by (simp add: counter_world_def allocated_def)
  from getInitialState_is_constant [OF c s] obtain v w0 where
    1: "exec counter_code 3 counter_init (new_store \<lparr>cells = Map.empty, fresh = 0\<rparr> ([] @ [InitializerCalled]))
          = Some (Ret v w0)"
    and 2: "getInitialState counter_world = Inr v" "getInitialState (world_of (Ret Undefined counter_later)) = Inr v"
    and 3: "allocated (heap counter_world) v \<longrightarrow>
            own_props (heap (world_of (Ret Undefined counter_later))) v = own_props (heap counter_world) v"
    by blast
  from 1 e have v: "v = Obj 0" by simp
  have g: "getState counter_later = Num 7" by (simp add: getState_def counter_later_def)
  from c s 2 3 a g show ?thesis unfolding v by simp
qed

text \<open>
  C5, as stated, fails where a listener calls \<^verbatim>\<open>setState\<close> again: the call
  \<^verbatim>\<open>listener(state, previousState)\<close> reads the variable \<^verbatim>\<open>state\<close> when the
  listener is called. In the store \<open>reenter_world\<close>, \<^verbatim>\<open>setState(1)\<close> is accepted (the snapshot 0
  becomes 1) and listener 2 is registered throughout, yet it is never called with (1, 0):
  it is called with (2, 1) by the inner call and then with (2, 0).
\<close>

theorem listener_not_called_with_new_snapshot_counterexample:
  "candidate reenter_code 9 (Num 1) reenter_world = Some (Ret (Num 1) reenter_world)
   \<and> Num 1 \<noteq> state reenter_world
   \<and> state (assign_state (Num 1) None reenter_world) = Num 1
   \<and> 2 \<in> registered reenter_world
   \<and> setState reenter_code 10 (Num 1) None reenter_world = Some (Ret Undefined reenter_later)
   \<and> 2 \<in> registered reenter_later
   \<and> events_since reenter_world reenter_later
       = [ListenerCalled 1 (Num 1) (Num 0), ListenerCalled 1 (Num 2) (Num 1),
          ListenerCalled 2 (Num 2) (Num 1), ListenerCalled 2 (Num 2) (Num 0)]
   \<and> ListenerCalled 2 (Num 1) (Num 0) \<notin> set (events_since reenter_world reenter_later)"
proof -
  have run: "setState reenter_code 10 (Num 1) None reenter_world = Some (Ret Undefined reenter_later)"
    by (simp add: fuel_numeral Let_def reenter_code_def reenter_world_def reenter_later_def
        assign_state_def typeof_def)
  have ev: "events_since reenter_world reenter_later
       = [ListenerCalled 1 (Num 1) (Num 0), ListenerCalled 1 (Num 2) (Num 1),
          ListenerCalled 2 (Num 2) (Num 1), ListenerCalled 2 (Num 2) (Num 0)]"
    by (simp add: events_since_def reenter_world_def reenter_later_def)
  have "candidate reenter_code 9 (Num 1) reenter_world = Some (Ret (Num 1) reenter_world)"
    by (simp add: candidate_def)
  moreover have "Num 1 \<noteq> state reenter_world" by (simp add: reenter_world_def)
  moreover have "state (assign_state (Num 1) None reenter_world) = Num 1"
    by (simp add: assign_state_def typeof_def)
  moreover have "2 \<in> registered reenter_world" "2 \<in> registered reenter_later"
    by (simp_all add: registered_def reenter_world_def reenter_later_def)
  moreover have "ListenerCalled 2 (Num 1) (Num 0) \<notin> set (events_since reenter_world reenter_later)"
    unfolding ev by simp
  ultimately show ?thesis using run ev by (intro conjI)
qed

text \<open>
  C5, amended. A \<^verbatim>\<open>setState\<close> whose candidate is the snapshot returns at once, in the
  world in which the candidate was computed (no call is recorded). One whose candidate
  differs assigns the new snapshot and runs a notification pass, in which: the first
  listener called is handed (new snapshot, previous snapshot); if the call returns, every
  listener that was registered when the mutation was accepted has been called with the
  previous snapshot as second argument unless it was unsubscribed during the call, and
  so has every listener registered when the call returns; and if during this pass no
  listener comes to a call of \<^verbatim>\<open>setState\<close>, every listener called is handed
  (new snapshot, previous snapshot) and the snapshot at the end is the new snapshot.
  Where the functions of the program return at once, the call does return.
\<close>

theorem notification_hands_snapshot_and_previous:
  assumes "candidate code n partial w = Some (Ret v w1)"
    and "new = state (assign_state v replace w1)"
  shows "(v = state w1 \<longrightarrow> setState code (Suc n) partial replace w = Some (Ret Undefined w1))
       \<and> (v \<noteq> state w1 \<longrightarrow>
            (\<forall>out evs. setState code (Suc n) partial replace w = Some out
                        \<and> evs = events_since w1 (world_of out) \<longrightarrow>
                 (evs = [] \<or> (\<exists>l rest. evs = ListenerCalled l new (state w1) # rest))
               \<and> (returned out \<longrightarrow>
                     (\<forall>l \<in> registered w1. (\<exists>s. ListenerCalled l s (state w1) \<in> set evs)
                                             \<or> Unsubscribed l \<in> set evs)
                   \<and> (\<forall>l \<in> registered (world_of out). \<exists>s. ListenerCalled l s (state w1) \<in> set evs))
               \<and> (\<not> pass_calls_setState code n 0 (state w1) (assign_state v replace w1) \<longrightarrow>
                     state (world_of out) = new
                   \<and> (\<forall>l s p. ListenerCalled l s p \<in> set evs \<longrightarrow> s = new \<and> p = state w1)))
          \<and> ((\<forall>f args. \<exists>r. code f args = Return r) \<and> length (listeners w1) < n \<longrightarrow>
                 (\<exists>u w'. setState code (Suc n) partial replace w = Some (Ret u w'))))"
proof -
  let ?wa = "assign_state v replace w1"
  have A: "v = state w1 \<longrightarrow> setState code (Suc n) partial replace w = Some (Ret Undefined w1)"
    using assms(1) by (simp add: setState_candidate del: setState.simps)
  have B: "(evs = [] \<or> (\<exists>l rest. evs = ListenerCalled l new (state w1) # rest))
               \<and> (returned out \<longrightarrow>
                     (\<forall>l \<in> registered w1. (\<exists>s. ListenerCalled l s (state w1) \<in> set evs)
                                             \<or> Unsubscribed l \<in> set evs)
                   \<and> (\<forall>l \<in> registered (world_of out). \<exists>s. ListenerCalled l s (state w1) \<in> set evs))
               \<and> (\<not> pass_calls_setState code n 0 (state w1) (assign_state v replace w1) \<longrightarrow>
                     state (world_of out) = new
                   \<and> (\<forall>l s p. ListenerCalled l s p \<in> set evs \<longrightarrow> s = new \<and> p = state w1))"
    if ne: "v \<noteq> state w1" and run: "setState code (Suc n) partial replace w = Some out"
      and e: "evs = events_since w1 (world_of out)" for out evs
  proof -
    from assms(1) run ne have f: "forEach code n 0 (state w1) ?wa = Some out"
      by (simp add: setState_candidate del: setState.simps)
    have ev: "events_since ?wa (world_of out) = evs" by (simp add: e events_since_def)
    from forEach_first_call [OF f]
    have B1: "evs = [] \<or> (\<exists>l rest. evs = ListenerCalled l new (state w1) # rest)"
      by (simp only: ev assms(2))
    have B2: "(\<forall>l \<in> registered w1. (\<exists>s. ListenerCalled l s (state w1) \<in> set evs)
                                             \<or> Unsubscribed l \<in> set evs)
                   \<and> (\<forall>l \<in> registered (world_of out). \<exists>s. ListenerCalled l s (state w1) \<in> set evs)"
      if "returned out"
    proof -
      from that obtain u w' where out: "out = Ret u w'" by (cases out) auto
      have all: "\<exists>s. ListenerCalled l s (state w1) \<in> set evs" if "l \<in> registered w'" for l
        using setState_notifies [OF assms(1) ne run [unfolded out] that] by (simp add: e out)
      from run_faithful [of code n, THEN conjunct2, THEN conjunct2, rule_format, OF f]
      obtain es where t: "trace (world_of out) = trace ?wa @ es"
        and r: "registered (world_of out) = registered_after (registered ?wa) es"
        unfolding faithful_def by blast
      from t have "es = evs" by (simp add: e events_since_def)
      with r have r': "registered w' = registered_after (registered w1) evs"
        by (simp add: out registered_def)
      have "\<forall>l \<in> registered w1. (\<exists>s. ListenerCalled l s (state w1) \<in> set evs) \<or> Unsubscribed l \<in> set evs"
      proof
        fix l assume "l \<in> registered w1"
        from registered_after_keeps [OF this, of evs] r' all
        show "(\<exists>s. ListenerCalled l s (state w1) \<in> set evs) \<or> Unsubscribed l \<in> set evs" by blast
      qed
      moreover have "\<forall>l \<in> registered (world_of out). \<exists>s. ListenerCalled l s (state w1) \<in> set evs"
        using all by (simp add: out)
      ultimately show ?thesis by (rule conjI)
    qed
    have B3: "state (world_of out) = new
                   \<and> (\<forall>l s p. ListenerCalled l s p \<in> set evs \<longrightarrow> s = new \<and> p = state w1)"
      if q: "\<not> pass_calls_setState code n 0 (state w1) ?wa"
    proof -
      from uninterrupted_forEach [OF q f] obtain es where
        st: "state (world_of out) = state ?wa" and t: "trace (world_of out) = trace ?wa @ es"
        and calls: "\<forall>l s p. ListenerCalled l s p \<in> set es \<longrightarrow> s = state ?wa \<and> p = state w1"
        unfolding quiet_step_def by blast
      from t have "es = evs" by (simp add: e events_since_def)
      with st calls show ?thesis by (simp add: assms(2))
    qed
    from B1 B2 B3 show ?thesis by blast
  qed
  have C: "(\<forall>f args. \<exists>r. code f args = Return r) \<and> length (listeners w1) < n \<longrightarrow>
                 (\<exists>u w'. setState code (Suc n) partial replace w = Some (Ret u w'))"
    if ne: "v \<noteq> state w1"
  proof
    assume p: "(\<forall>f args. \<exists>r. code f args = Return r) \<and> length (listeners w1) < n"
    from p have pas: "\<forall>f args. \<exists>r. code f args = Return r" and len: "length (listeners w1) < n"
      by blast+
    have "length (listeners (assign_state v replace w1)) - 0 < n" using len by simp
    from forEach_passive [OF pas this]
    obtain u w' where "forEach code n 0 (state w1) (assign_state v replace w1) = Some (Ret u w')"
      by blast
    with assms(1) ne show "\<exists>u w'. setState code (Suc n) partial replace w = Some (Ret u w')"
      by (simp add: setState_candidate del: setState.simps)
  qed
  show ?thesis
  proof (rule conjI)
    show "v = state w1 \<longrightarrow> setState code (Suc n) partial replace w = Some (Ret Undefined w1)"
      by (rule A)
    show "v \<noteq> state w1 \<longrightarrow>
            (\<forall>out evs. setState code (Suc n) partial replace w = Some out
                        \<and> evs = events_since w1 (world_of out) \<longrightarrow>
                 (evs = [] \<or> (\<exists>l rest. evs = ListenerCalled l new (state w1) # rest))
               \<and> (returned out \<longrightarrow>
                     (\<forall>l \<in> registered w1. (\<exists>s. ListenerCalled l s (state w1) \<in> set evs)
                                             \<or> Unsubscribed l \<in> set evs)
                   \<and> (\<forall>l \<in> registered (world_of out). \<exists>s. ListenerCalled l s (state w1) \<in> set evs))
               \<and> (\<not> pass_calls_setState code n 0 (state w1) (assign_state v replace w1) \<longrightarrow>
                     state (world_of out) = new
                   \<and> (\<forall>l s p. ListenerCalled l s p \<in> set evs \<longrightarrow> s = new \<and> p = state w1)))
          \<and> ((\<forall>f args. \<exists>r. code f args = Return r) \<and> length (listeners w1) < n \<longrightarrow>
                 (\<exists>u w'. setState code (Suc n) partial replace w = Some (Ret u w')))"
    proof (rule impI, rule conjI)
      assume ne: "v \<noteq> state w1"
      show "\<forall>out evs. setState code (Suc n) partial replace w = Some out
                        \<and> evs = events_since w1 (world_of out) \<longrightarrow>
                 (evs = [] \<or> (\<exists>l rest. evs = ListenerCalled l new (state w1) # rest))
               \<and> (returned out \<longrightarrow>
                     (\<forall>l \<in> registered w1. (\<exists>s. ListenerCalled l s (state w1) \<in> set evs)
                                             \<or> Unsubscribed l \<in> set evs)
                   \<and> (\<forall>l \<in> registered (world_of out). \<exists>s. ListenerCalled l s (state w1) \<in> set evs))
               \<and> (\<not> pass_calls_setState code n 0 (state w1) (assign_state v replace w1) \<longrightarrow>
                     state (world_of out) = new
                   \<and> (\<forall>l s p. ListenerCalled l s p \<in> set evs \<longrightarrow> s = new \<and> p = state w1))"
      proof (intro allI, rule impI)
        fix out evs
        assume "setState code (Suc n) partial replace w = Some out \<and> evs = events_since w1 (world_of out)"
        then have r: "setState code (Suc n) partial replace w = Some out"
          and e: "evs = events_since w1 (world_of out)" by blast+
        from B [OF ne r e]
        show "(evs = [] \<or> (\<exists>l rest. evs = ListenerCalled l new (state w1) # rest))
               \<and> (returned out \<longrightarrow>
                     (\<forall>l \<in> registered w1. (\<exists>s. ListenerCalled l s (state w1) \<in> set evs)
                                             \<or> Unsubscribed l \<in> set evs)
                   \<and> (\<forall>l \<in> registered (world_of out). \<exists>s. ListenerCalled l s (state w1) \<in> set evs))
               \<and> (\<not> pass_calls_setState code n 0 (state w1) (assign_state v replace w1) \<longrightarrow>
                     state (world_of out) = new
                   \<and> (\<forall>l s p. ListenerCalled l s p \<in> set evs \<longrightarrow> s = new \<and> p = state w1))" .
      qed
      from C [OF ne] show "(\<forall>f args. \<exists>r. code f args = Return r) \<and> length (listeners w1) < n \<longrightarrow>
                 (\<exists>u w'. setState code (Suc n) partial replace w = Some (Ret u w'))" .
    qed
  qed
qed

theorem notification_hands_snapshot_and_previous_witness:
  "candidate hub_code 8 (Num 1) hub_world = Some (Ret (Num 1) hub_world)
   \<and> setState hub_code (Suc 8) (Num 1) None hub_world = Some (Ret Undefined hub_once)
   \<and> Num 1 \<noteq> state hub_world
   \<and> state (assign_state (Num 1) None hub_world) = Num 1 \<and> state hub_world = Num 0
   \<and> returned (Ret Undefined hub_once)
   \<and> pass_calls_setState hub_code 8 0 (Num 0) (assign_state (Num 1) None hub_world) = False
   \<and> registered hub_world = {1, 2, 3} \<and> registered hub_once = {2, 4}
   \<and> events_since hub_world hub_once
       = [ListenerCalled 1 (Num 1) (Num 0), Unsubscribed 1, Unsubscribed 3, Subscribed 4,
          ListenerCalled 2 (Num 1) (Num 0), ListenerCalled 4 (Num 1) (Num 0)]
   \<and> state hub_once = Num 1
   \<and> ListenerCalled 2 (Num 1) (Num 0) \<in> set (events_since hub_world hub_once)
   \<and> ListenerCalled 4 (Num 1) (Num 0) \<in> set (events_since hub_world hub_once)
   \<and> candidate reenter_code 9 (Num 7) reenter_world = Some (Ret (Num 7) reenter_world)
   \<and> Num 7 \<noteq> state reenter_world
   \<and> state (assign_state (Num 7) None reenter_world) = Num 7 \<and> state reenter_world = Num 0
   \<and> pass_calls_setState reenter_code 9 0 (Num 0) (assign_state (Num 7) None reenter_world) = False
   \<and> setState reenter_code (Suc 9) (Num 7) None reenter_world = Some (Ret Undefined reenter_seven)
   \<and> registered reenter_seven = {1, 2}
   \<and> state reenter_seven = Num 7
   \<and> ListenerCalled 1 (Num 7) (Num 0) \<in> set (events_since reenter_world reenter_seven)
   \<and> ListenerCalled 2 (Num 7) (Num 0) \<in> set (events_since reenter_world reenter_seven)
   \<and> candidate reenter_code 9 (Num 1) reenter_world = Some (Ret (Num 1) reenter_world)
   \<and> Num 1 \<noteq> state reenter_world
   \<and> state (assign_state (Num 1) None reenter_world) = Num 1
   \<and> pass_calls_setState reenter_code 9 0 (Num 0) (assign_state (Num 1) None reenter_world) = True
   \<and> setState reenter_code (Suc 9) (Num 1) None reenter_world = Some (Ret Undefined reenter_later)
   \<and> registered reenter_later = {1, 2}
   \<and> (\<exists>rest. events_since reenter_world reenter_later = ListenerCalled 1 (Num 1) (Num 0) # rest)
   \<and> (\<exists>s. ListenerCalled 1 s (Num 0) \<in> set (events_since reenter_world reenter_later))
   \<and> (\<exists>s. ListenerCalled 2 s (Num 0) \<in> set (events_since reenter_world reenter_later))
   \<and> candidate merge_code 2 (Obj 1) merge_world = Some (Ret (Obj 1) merge_world)
   \<and> Obj 1 \<noteq> state merge_world \<and> length (listeners merge_world) < 2
   \<and> setState merge_code (Suc 2) (Obj 1) (Some True) merge_world = Some (Ret Undefined replaced_world)
   \<and> events_since merge_world replaced_world = [ListenerCalled 1 (Obj 1) (Obj 0)]
   \<and> candidate merge_code 2 (Obj 0) merge_world = Some (Ret (Obj 0) merge_world)
   \<and> Obj 0 = state merge_world
   \<and> setState merge_code (Suc 2) (Obj 0) None merge_world = Some (Ret Undefined merge_world)"
proof -
  have c: "candidate hub_code 8 (Num 1) hub_world = Some (Ret (Num 1) hub_world)"
    by (simp add: candidate_def)
  have run: "setState hub_code (Suc 8) (Num 1) None hub_world = Some (Ret Undefined hub_once)"
    by (simp add: fuel_numeral Let_def hub_code_def hub_world_def hub_once_def assign_state_def
        typeof_def subscribe_def unsubscribe_def Set_add_def Set_delete_def)
  have ne: "Num 1 \<noteq> state hub_world" by (simp add: hub_world_def)
  have s: "state (assign_state (Num 1) None hub_world) = Num 1" "state hub_world = Num 0"
    by (simp_all add: assign_state_def typeof_def hub_world_def)
  have q: "pass_calls_setState hub_code 8 0 (Num 0) (assign_state (Num 1) None hub_world) = False"
    by (simp add: pass_numeral Let_def hub_code_def hub_world_def assign_state_def
        typeof_def subscribe_def unsubscribe_def Set_add_def Set_delete_def)
  have r: "registered hub_world = {1, 2, 3}" "registered hub_once = {2, 4}"
    by (auto simp: registered_def hub_world_def hub_once_def)
  have e: "events_since hub_world hub_once
       = [ListenerCalled 1 (Num 1) (Num 0), Unsubscribed 1, Unsubscribed 3, Subscribed 4,
          ListenerCalled 2 (Num 1) (Num 0), ListenerCalled 4 (Num 1) (Num 0)]"
    by (simp add: events_since_def hub_world_def hub_once_def)
  have ret: "returned (Ret Undefined hub_once)" by simp
  note law = notification_hands_snapshot_and_previous [OF c refl, of None, THEN conjunct2, THEN mp,
      OF ne, THEN conjunct1, rule_format, OF conjI, OF run refl]
  from q have q': "\<not> pass_calls_setState hub_code 8 0 (state hub_world) (assign_state (Num 1) None hub_world)"
    by (simp add: s)
  note quiet = law [THEN conjunct2, THEN conjunct2, THEN mp, OF q']
  from quiet [THEN conjunct1] have st: "state hub_once = Num 1" by (simp add: s)
  from law [THEN conjunct2, THEN conjunct1, THEN mp, OF ret, THEN conjunct2]
  have "\<forall>l \<in> registered hub_once. \<exists>s. ListenerCalled l s (Num 0) \<in> set (events_since hub_world hub_once)"
    by (simp add: s)
  with quiet [THEN conjunct2]
  have "\<forall>l \<in> registered hub_once. ListenerCalled l (Num 1) (Num 0) \<in> set (events_since hub_world hub_once)"
    by (simp add: s) blast
  then have called: "ListenerCalled 2 (Num 1) (Num 0) \<in> set (events_since hub_world hub_once)"
    "ListenerCalled 4 (Num 1) (Num 0) \<in> set (events_since hub_world hub_once)"
    unfolding r by simp_all
  have c7: "candidate reenter_code 9 (Num 7) reenter_world = Some (Ret (Num 7) reenter_world)"
    by (simp add: candidate_def)
  have ne7: "Num 7 \<noteq> state reenter_world" by (simp add: reenter_world_def)
  have s7: "state (assign_state (Num 7) None reenter_world) = Num 7" "state reenter_world = Num 0"
    by (simp_all add: assign_state_def typeof_def reenter_world_def)
  have q7: "pass_calls_setState reenter_code 9 0 (Num 0) (assign_state (Num 7) None reenter_world) = False"
    by (simp add: pass_numeral Let_def reenter_code_def reenter_world_def assign_state_def typeof_def)
  have run7: "setState reenter_code (Suc 9) (Num 7) None reenter_world = Some (Ret Undefined reenter_seven)"
    by (simp add: fuel_numeral Let_def reenter_code_def reenter_world_def reenter_seven_def
        assign_state_def typeof_def)
  have r7: "registered reenter_seven = {1, 2}"
    by (auto simp: registered_def reenter_seven_def)
  have ret7: "returned (Ret Undefined reenter_seven)" by simp
  note law7 = notification_hands_snapshot_and_previous [OF c7 refl, of None, THEN conjunct2, THEN mp,
      OF ne7, THEN conjunct1, rule_format, OF conjI, OF run7 refl]
  from q7 have q7': "\<not> pass_calls_setState reenter_code 9 0 (state reenter_world)
      (assign_state (Num 7) None reenter_world)"
    by (simp add: s7)
  note quiet7 = law7 [THEN conjunct2, THEN conjunct2, THEN mp, OF q7']
  from quiet7 [THEN conjunct1] have st7: "state reenter_seven = Num 7" by (simp add: s7)
  from law7 [THEN conjunct2, THEN conjunct1, THEN mp, OF ret7, THEN conjunct2]
  have "\<forall>l \<in> registered reenter_seven.
      \<exists>s. ListenerCalled l s (Num 0) \<in> set (events_since reenter_world reenter_seven)"
    by (simp add: s7)
  with quiet7 [THEN conjunct2]
  have "\<forall>l \<in> registered reenter_seven.
      ListenerCalled l (Num 7) (Num 0) \<in> set (events_since reenter_world reenter_seven)"
    by (simp add: s7) blast
  then have called7: "ListenerCalled 1 (Num 7) (Num 0) \<in> set (events_since reenter_world reenter_seven)"
    "ListenerCalled 2 (Num 7) (Num 0) \<in> set (events_since reenter_world reenter_seven)"
    unfolding r7 by simp_all
  have c1: "candidate reenter_code 9 (Num 1) reenter_world = Some (Ret (Num 1) reenter_world)"
    by (simp add: candidate_def)
  have ne1: "Num 1 \<noteq> state reenter_world" by (simp add: reenter_world_def)
  have s1: "state (assign_state (Num 1) None reenter_world) = Num 1"
    by (simp add: assign_state_def typeof_def reenter_world_def)
  have q1: "pass_calls_setState reenter_code 9 0 (Num 0) (assign_state (Num 1) None reenter_world) = True"
    by (simp add: pass_numeral Let_def reenter_code_def reenter_world_def assign_state_def typeof_def)
  have run1: "setState reenter_code (Suc 9) (Num 1) None reenter_world = Some (Ret Undefined reenter_later)"
    by (simp add: fuel_numeral Let_def reenter_code_def reenter_world_def reenter_later_def
        assign_state_def typeof_def)
  have r1: "registered reenter_later = {1, 2}"
    by (auto simp: registered_def reenter_later_def)
  have ret1: "returned (Ret Undefined reenter_later)" by simp
  have nonempty: "events_since reenter_world reenter_later \<noteq> []"
    by (simp add: events_since_def reenter_world_def reenter_later_def)
  note law1 = notification_hands_snapshot_and_previous [OF c1 refl, of None, THEN conjunct2, THEN mp,
      OF ne1, THEN conjunct1, rule_format, OF conjI, OF run1 refl]
  from law1 [THEN conjunct1] nonempty
  have first1: "\<exists>rest. events_since reenter_world reenter_later = ListenerCalled 1 (Num 1) (Num 0) # rest"
    by (auto simp: s1 s7 events_since_def reenter_world_def reenter_later_def)
  from law1 [THEN conjunct2, THEN conjunct1, THEN mp, OF ret1, THEN conjunct2]
  have "\<forall>l \<in> registered reenter_later.
      \<exists>s. ListenerCalled l s (Num 0) \<in> set (events_since reenter_world reenter_later)"
    by (simp add: s7)
  then have called1: "\<exists>s. ListenerCalled 1 s (Num 0) \<in> set (events_since reenter_world reenter_later)"
    "\<exists>s. ListenerCalled 2 s (Num 0) \<in> set (events_since reenter_world reenter_later)"
    unfolding r1 by simp_all
  have pas: "\<forall>f args. \<exists>r. merge_code f args = Return r" by (simp add: merge_code_def)
  have c2: "candidate merge_code 2 (Obj 1) merge_world = Some (Ret (Obj 1) merge_world)"
    by (simp add: candidate_def)
  have ne2: "Obj 1 \<noteq> state merge_world" and len: "length (listeners merge_world) < 2"
    by (simp_all add: merge_world_def)
  from notification_hands_snapshot_and_previous [OF c2 refl, of "Some True", THEN conjunct2,
      THEN mp, OF ne2, THEN conjunct2, THEN mp, OF conjI, OF pas len]
  obtain u w' where "setState merge_code (Suc 2) (Obj 1) (Some True) merge_world = Some (Ret u w')"
    by blast
  moreover have run2: "setState merge_code (Suc 2) (Obj 1) (Some True) merge_world = Some (Ret Undefined replaced_world)"
    by (simp add: fuel_numeral Let_def merge_world_def replaced_world_def merge_code_def assign_state_def)
  have e2: "events_since merge_world replaced_world = [ListenerCalled 1 (Obj 1) (Obj 0)]"
    by (simp add: events_since_def merge_world_def replaced_world_def)
  have c0: "candidate merge_code 2 (Obj 0) merge_world = Some (Ret (Obj 0) merge_world)"
    by (simp add: candidate_def)
  have same: "Obj 0 = state merge_world" by (simp add: merge_world_def)
  from notification_hands_snapshot_and_previous [OF c0 refl, of None, THEN conjunct1, THEN mp, OF same]
  have noop: "setState merge_code (Suc 2) (Obj 0) None merge_world = Some (Ret Undefined merge_world)" .
  from c run ne s ret q r e st called c7 ne7 s7 q7 run7 r7 st7 called7 c1 ne1 s1 q1 run1 r1
    first1 called1 c2 ne2 len run2 e2 c0 same noop
  show ?thesis by (intro conjI)
qed

text \<open>
  C6. \<^verbatim>\<open>subscribe(listener)\<close> puts the listener in the set and returns a closure.
  Called in any later world, the closure takes that listener out of the set and leaves
  every other slot of the set, the snapshot, the initial snapshot and the heap as they
  are; it returns a boolean (it cannot throw). Called again, it returns \<^verbatim>\<open>false\<close>
  and the set is unchanged. After it, through any sequence of \<^verbatim>\<open>setState\<close> calls the
  listener is not called unless it has been subscribed again; and every other listener
  that was in the set is called by the next accepted \<^verbatim>\<open>setState\<close> that returns, unless
  it is unsubscribed during that call.
\<close>

theorem unsubscribe_removes_exactly_that_listener:
  assumes "subscribe l w = (unsub, w1)" and "unsub w2 = (b, w3)" and "unsub w3 = (b', w4)"
  shows "registered w1 = insert l (registered w)
       \<and> b = (l \<in> registered w2) \<and> registered w3 = registered w2 - {l}
       \<and> length (listeners w3) = length (listeners w2)
       \<and> (\<forall>k<length (listeners w2). listeners w2 ! k \<noteq> Some l \<longrightarrow> listeners w3 ! k = listeners w2 ! k)
       \<and> state w3 = state w2 \<and> initialState w3 = initialState w2 \<and> heap w3 = heap w2
       \<and> \<not> b' \<and> listeners w4 = listeners w3
       \<and> state w4 = state w3 \<and> initialState w4 = initialState w3 \<and> heap w4 = heap w3
       \<and> (\<forall>n calls out xs s p ys.
             setStates code n calls w3 = Some out
             \<and> events_since w3 (world_of out) = xs @ ListenerCalled l s p # ys \<longrightarrow>
             Subscribed l \<in> set xs)
       \<and> (\<forall>n partial replace v wc u w' l'.
             candidate code n partial w3 = Some (Ret v wc) \<and> v \<noteq> state wc
             \<and> setState code (Suc n) partial replace w3 = Some (Ret u w')
             \<and> l' \<in> registered w2 \<and> l' \<noteq> l \<longrightarrow>
             (\<exists>s. ListenerCalled l' s (state wc) \<in> set (events_since w3 w'))
             \<or> Unsubscribed l' \<in> set (events_since w3 w'))"
proof -
  from assms(1) have unsub: "unsub = unsubscribe l"
    and w1: "w1 = w\<lparr>listeners := Set_add l (listeners w), trace := trace w @ [Subscribed l]\<rparr>"
    by (simp_all add: subscribe_def)
  from assms(2) have b: "b = (Some l \<in> set (listeners w2))"
    and w3: "w3 = w2\<lparr>listeners := Set_delete l (listeners w2), trace := trace w2 @ [Unsubscribed l]\<rparr>"
    by (simp_all add: unsub unsubscribe_def)
  from assms(3) have b': "b' = (Some l \<in> set (listeners w3))"
    and w4: "w4 = w3\<lparr>listeners := Set_delete l (listeners w3), trace := trace w3 @ [Unsubscribed l]\<rparr>"
    by (simp_all add: unsub unsubscribe_def)
  have r3: "registered w3 = registered w2 - {l}"
    using registered_unsubscribe [of l w2] assms(2) by (simp add: unsub)
  have gone: "Some l \<notin> set (listeners w3)" by (simp add: w3 Set_delete_nth(3))
  have never: "Subscribed l \<in> set xs"
    if "setStates code n calls w3 = Some out \<and> events_since w3 (world_of out) = xs @ ListenerCalled l s p # ys"
    for n calls out xs s p ys
  proof -
    from that have run: "setStates code n calls w3 = Some out"
      and ev: "events_since w3 (world_of out) = xs @ ListenerCalled l s p # ys" by blast+
    from setStates_faithful [OF run] obtain es where
      t: "trace (world_of out) = trace w3 @ es" and c: "called_while_registered (registered w3) es"
      unfolding faithful_def by blast
    from events_since_append [OF t] ev have "es = xs @ ListenerCalled l s p # ys" by simp
    with c have "called_while_registered (registered w3) (xs @ ListenerCalled l s p # ys)" by simp
    moreover have "l \<notin> registered w3" by (simp add: r3)
    ultimately show ?thesis by (rule not_called_unless_registered)
  qed
  have others: "(\<exists>s. ListenerCalled l' s (state wc) \<in> set (events_since w3 w'))
        \<or> Unsubscribed l' \<in> set (events_since w3 w')"
    if "candidate code n partial w3 = Some (Ret v wc) \<and> v \<noteq> state wc
        \<and> setState code (Suc n) partial replace w3 = Some (Ret u w')
        \<and> l' \<in> registered w2 \<and> l' \<noteq> l"
    for n partial replace v wc u w' l'
  proof -
    from that have cand: "candidate code n partial w3 = Some (Ret v wc)" and ne: "v \<noteq> state wc"
      and run: "setState code (Suc n) partial replace w3 = Some (Ret u w')"
      and l': "l' \<in> registered w3" by (auto simp: r3)
    from setState_faithful [OF run] obtain es where
      t: "trace w' = trace w3 @ es" and r: "registered w' = registered_after (registered w3) es"
      unfolding faithful_def by auto
    have es: "events_since w3 w' = es" using t by (rule events_since_append)
    from registered_after_keeps [OF l', of es] r
    consider "l' \<in> registered w'" | "Unsubscribed l' \<in> set es" by blast
    then show ?thesis
    proof cases
      case 1
      from setState_notifies [OF cand ne run 1] obtain s where
        s: "ListenerCalled l' s (state wc) \<in> set (events_since wc w')" by blast
      from candidate_trace [OF cand] obtain e1 where e1: "trace wc = trace w3 @ e1" by auto
      from s have "ListenerCalled l' s (state wc) \<in> set (drop (length (trace wc)) (trace w'))"
        by (simp add: events_since_def)
      then have "ListenerCalled l' s (state wc) \<in> set (drop (length (trace w3)) (trace w'))"
        unfolding e1 by (auto dest: in_set_dropD simp: drop_append t dest!: in_set_dropD)
      then show ?thesis by (auto simp: events_since_def)
    next
      case 2
      then show ?thesis by (simp add: es)
    qed
  qed
  show ?thesis
  proof (intro conjI)
    show "registered w1 = insert l (registered w)"
      using registered_subscribe [of l w] assms(1) by simp
    show "b = (l \<in> registered w2)" by (simp add: b registered_def)
    show "registered w3 = registered w2 - {l}" by (rule r3)
    show "length (listeners w3) = length (listeners w2)" by (simp add: w3 Set_delete_nth(1))
    show "\<forall>k<length (listeners w2). listeners w2 ! k \<noteq> Some l \<longrightarrow> listeners w3 ! k = listeners w2 ! k"
      by (simp add: w3 Set_delete_nth(2))
    show "state w3 = state w2" "initialState w3 = initialState w2" "heap w3 = heap w2"
      by (simp_all add: w3)
    show "\<not> b'" using gone by (simp add: b')
    show "listeners w4 = listeners w3" using gone by (simp add: w4 Set_delete_absent)
    show "state w4 = state w3" "initialState w4 = initialState w3" "heap w4 = heap w3"
      by (simp_all add: w4)
    show "\<forall>n calls out xs s p ys.
             setStates code n calls w3 = Some out
             \<and> events_since w3 (world_of out) = xs @ ListenerCalled l s p # ys \<longrightarrow>
             Subscribed l \<in> set xs"
      using never by blast
    show "\<forall>n partial replace v wc u w' l'.
             candidate code n partial w3 = Some (Ret v wc) \<and> v \<noteq> state wc
             \<and> setState code (Suc n) partial replace w3 = Some (Ret u w')
             \<and> l' \<in> registered w2 \<and> l' \<noteq> l \<longrightarrow>
             (\<exists>s. ListenerCalled l' s (state wc) \<in> set (events_since w3 w'))
             \<or> Unsubscribed l' \<in> set (events_since w3 w')"
      using others by blast
  qed
qed

theorem unsubscribe_removes_exactly_that_listener_witness:
  "subscribe 5 hub_world = (unsubscribe 5, sub_world)
   \<and> unsubscribe 5 sub_world = (True, unsub_world)
   \<and> unsubscribe 5 unsub_world = (False, unsub_world\<lparr>trace := [Subscribed 5, Unsubscribed 5, Unsubscribed 5]\<rparr>)
   \<and> registered hub_world = {1, 2, 3}
   \<and> registered sub_world = insert 5 (registered hub_world)
   \<and> registered unsub_world = registered sub_world - {5}
   \<and> listeners unsub_world = [Some 1, Some 2, Some 3, None]
   \<and> setStates merge_code 6 [(Num 1, None)] unsub_world = Some (Ret Undefined unsub_later)
   \<and> events_since unsub_world unsub_later
       = [ListenerCalled 1 (Num 1) (Num 0), ListenerCalled 2 (Num 1) (Num 0),
          ListenerCalled 3 (Num 1) (Num 0)]"
proof -
  have s: "subscribe 5 hub_world = (unsubscribe 5, sub_world)"
    by (simp add: subscribe_def sub_world_def hub_world_def Set_add_def)
  have u: "unsubscribe 5 sub_world = (True, unsub_world)"
    by (simp add: unsubscribe_def sub_world_def unsub_world_def hub_world_def Set_delete_def)
  have u': "unsubscribe 5 unsub_world
      = (False, unsub_world\<lparr>trace := [Subscribed 5, Unsubscribed 5, Unsubscribed 5]\<rparr>)"
    by (simp add: unsubscribe_def unsub_world_def hub_world_def Set_delete_def)
  note law = unsubscribe_removes_exactly_that_listener [OF s u u', of merge_code]
  have r0: "registered hub_world = {1, 2, 3}" by (auto simp: registered_def hub_world_def)
  have l: "listeners unsub_world = [Some 1, Some 2, Some 3, None]" by (simp add: unsub_world_def)
  have run: "setStates merge_code 6 [(Num 1, None)] unsub_world = Some (Ret Undefined unsub_later)"
    by (simp add: fuel_numeral Let_def merge_code_def unsub_world_def unsub_later_def hub_world_def
        assign_state_def typeof_def)
  have e: "events_since unsub_world unsub_later
       = [ListenerCalled 1 (Num 1) (Num 0), ListenerCalled 2 (Num 1) (Num 0),
          ListenerCalled 3 (Num 1) (Num 0)]"
    by (simp add: events_since_def unsub_world_def unsub_later_def)
  from s u u' r0 law [THEN conjunct1] law [THEN conjunct2, THEN conjunct2, THEN conjunct1] l run e
  show ?thesis by (intro conjI)
qed

text \<open>
  C7. Through any sequence of \<^verbatim>\<open>setState\<close> calls, whatever the listeners do to the
  listener set while they are being notified: a listener is only ever called while it is
  in the set, so once a listener has been unsubscribed (by itself or by another listener,
  in the middle of a pass) it is not called again, in that pass or in a later call,
  unless it is subscribed again; the set at the end is the set at the start changed by
  the subscriptions and unsubscriptions made; nothing throws unless a function of the
  program throws; and a pass that returns has called every listener that is in the set
  when it returns.
\<close>

theorem notification_tolerates_changes_of_the_set:
  assumes "setStates code n calls w = Some out" and "evs = events_since w (world_of out)"
  shows "called_while_registered (registered w) evs
       \<and> (\<forall>xs l ys s p zs. evs = xs @ Unsubscribed l # ys @ ListenerCalled l s p # zs \<longrightarrow>
             Subscribed l \<in> set ys)
       \<and> registered (world_of out) = registered_after (registered w) evs
       \<and> ((\<forall>f args. no_throw (code f args)) \<and> initialState w \<noteq> None \<longrightarrow> returned out)
       \<and> (\<forall>m partial replace v wc u w' l.
             candidate code m partial w = Some (Ret v wc) \<and> v \<noteq> state wc
             \<and> setState code (Suc m) partial replace w = Some (Ret u w') \<and> l \<in> registered w' \<longrightarrow>
             (\<exists>s. ListenerCalled l s (state wc) \<in> set (events_since wc w')))"
proof -
  from setStates_faithful [OF assms(1)] obtain es where
    t: "trace (world_of out) = trace w @ es"
    and c0: "called_while_registered (registered w) es"
    and r0: "registered (world_of out) = registered_after (registered w) es"
    unfolding faithful_def by blast
  have "evs = es" unfolding assms(2) using t by (rule events_since_append)
  with c0 r0 have
    c: "called_while_registered (registered w) evs"
    and r: "registered (world_of out) = registered_after (registered w) evs"
    by simp_all
  show ?thesis
  proof (intro conjI allI impI)
    show "called_while_registered (registered w) evs" by (rule c)
    show "registered (world_of out) = registered_after (registered w) evs" by (rule r)
    show "Subscribed l \<in> set ys"
      if "evs = xs @ Unsubscribed l # ys @ ListenerCalled l s p # zs" for xs l ys s p zs
      using c unfolding that by (rule not_called_once_removed)
    show "returned out" if "(\<forall>f args. no_throw (code f args)) \<and> initialState w \<noteq> None"
    proof (rule setStates_returns [OF _ _ assms(1)])
      show "no_throw (code f args)" for f args using that by blast
      show "initialState w \<noteq> None" using that by blast
    qed
    show "\<exists>s. ListenerCalled l s (state wc) \<in> set (events_since wc w')"
      if "candidate code m partial w = Some (Ret v wc) \<and> v \<noteq> state wc
          \<and> setState code (Suc m) partial replace w = Some (Ret u w') \<and> l \<in> registered w'"
      for m partial replace v wc u w' l
    proof (rule setState_notifies)
      show "candidate code m partial w = Some (Ret v wc)" using that by (elim conjE)
      show "v \<noteq> state wc" using that by (elim conjE)
      show "setState code (Suc m) partial replace w = Some (Ret u w')" using that by (elim conjE)
      show "l \<in> registered w'" using that by (elim conjE)
    qed
  qed
qed

theorem notification_tolerates_changes_of_the_set_witness:
  "setStates hub_code 7 [(Num 1, None), (Num 2, None)] hub_world = Some (Ret Undefined hub_later)
   \<and> registered hub_world = {1, 2, 3}
   \<and> events_since hub_world hub_later
       = [ListenerCalled 1 (Num 1) (Num 0), Unsubscribed 1, Unsubscribed 3, Subscribed 4,
          ListenerCalled 2 (Num 1) (Num 0), ListenerCalled 4 (Num 1) (Num 0),
          ListenerCalled 2 (Num 2) (Num 1), ListenerCalled 4 (Num 2) (Num 1)]
   \<and> called_while_registered (registered hub_world) (events_since hub_world hub_later)
   \<and> registered hub_later = {2, 4}
   \<and> initialState hub_world \<noteq> None
   \<and> returned (Ret Undefined hub_later)"
proof -
  note law = notification_tolerates_changes_of_the_set [OF hub_run refl]
  have i: "initialState hub_world \<noteq> None" by (simp add: hub_world_def)
  have nt: "\<forall>f args. no_throw (hub_code f args)" using hub_no_throw by blast
  have e: "events_since hub_world hub_later
       = [ListenerCalled 1 (Num 1) (Num 0), Unsubscribed 1, Unsubscribed 3, Subscribed 4,
          ListenerCalled 2 (Num 1) (Num 0), ListenerCalled 4 (Num 1) (Num 0),
          ListenerCalled 2 (Num 2) (Num 1), ListenerCalled 4 (Num 2) (Num 1)]"
    by (simp add: events_since_def hub_world_def hub_later_def)
  have r0: "registered hub_world = {1, 2, 3}" by (auto simp: registered_def hub_world_def)
  have r1: "registered hub_later = {2, 4}" by (auto simp: registered_def hub_later_def)
  have c: "called_while_registered (registered hub_world) (events_since hub_world hub_later)"
    using law [THEN conjunct1] by (simp only: world_of.simps)
  have "returned (Ret Undefined hub_later)"
    using law [THEN conjunct2, THEN conjunct2, THEN conjunct2, THEN conjunct1, THEN mp, OF conjI, OF nt i] .
  with hub_run r0 e c r1 i show ?thesis by (intro conjI)
qed

text \<open>
  C8. When the initializer returns \<open>v\<close>, \<^verbatim>\<open>createStoreImpl\<close> returns the handle with
  the four operations \<^verbatim>\<open>setState\<close>, \<^verbatim>\<open>getState\<close>, \<^verbatim>\<open>getInitialState\<close> and
  \<^verbatim>\<open>subscribe\<close>, and both \<^verbatim>\<open>getState()\<close> and \<^verbatim>\<open>getInitialState()\<close> then return
  \<open>v\<close>. The initializer is called once: one call is recorded, whatever the initializer
  itself does with the operations it is given (in the witness it reads the snapshot,
  sets it, reads it again and subscribes a listener before it returns).
\<close>

theorem createStoreImpl_seeds_both_snapshots:
  assumes "exec code n createState (new_store h (tr @ [InitializerCalled])) = Some (Ret v w0)"
  shows "\<exists>w. createStoreImpl code n createState h tr
               = Some (Created \<lparr>api_setState = setState code, api_getState = getState,
                     api_getInitialState = getInitialState, api_subscribe = subscribe\<rparr> w)
           \<and> getState w = v \<and> getInitialState w = Inr v
           \<and> count_list (drop (length tr) (trace w)) InitializerCalled = 1"
proof -
  let ?w = "w0\<lparr>state := v, initialState := Some v\<rparr>"
  from run_no_init [of code n, THEN conjunct1, rule_format, OF assms]
  obtain evs where "trace w0 = (tr @ [InitializerCalled]) @ evs" and "InitializerCalled \<notin> set evs"
    unfolding no_init_def new_store_def by auto
  then have "count_list (drop (length tr) (trace ?w)) InitializerCalled = 1"
    by (simp add: count_list_0_iff)
  moreover have "getState ?w = v" "getInitialState ?w = Inr v"
    by (simp_all add: getState_def getInitialState_def)
  moreover have "createStoreImpl code n createState h tr
               = Some (Created \<lparr>api_setState = setState code, api_getState = getState,
                     api_getInitialState = getInitialState, api_subscribe = subscribe\<rparr> ?w)"
    using assms by (simp add: createStoreImpl_def)
  ultimately show ?thesis by blast
qed

theorem createStoreImpl_seeds_both_snapshots_witness:
  "exec merge_code 7 seen_init (new_store \<lparr>cells = Map.empty, fresh = 0\<rparr> ([] @ [InitializerCalled]))
     = Some (Ret (Obj 0) (seen_world\<lparr>state := Num 1, initialState := None\<rparr>))
   \<and> createStoreImpl merge_code 7 seen_init \<lparr>cells = Map.empty, fresh = 0\<rparr> []
     = Some (Created \<lparr>api_setState = setState merge_code, api_getState = getState,
                     api_getInitialState = getInitialState, api_subscribe = subscribe\<rparr> seen_world)
   \<and> getState seen_world = Obj 0 \<and> getInitialState seen_world = Inr (Obj 0)
   \<and> own_props (heap seen_world) (Obj 0) = [''before'' \<mapsto> Undefined, ''after'' \<mapsto> Num 1]
   \<and> count_list (drop (length ([] :: event list)) (trace seen_world)) InitializerCalled = 1"
proof -
  have e: "exec merge_code 7 seen_init (new_store \<lparr>cells = Map.empty, fresh = 0\<rparr> ([] @ [InitializerCalled]))
     = Some (Ret (Obj 0) (seen_world\<lparr>state := Num 1, initialState := None\<rparr>))"
    by (simp add: eval_nat_numeral seen_init_def seen_world_def new_store_def getState_def
        assign_state_def typeof_def subscribe_def Set_add_def new_object_def)
  have w: "seen_world\<lparr>state := Num 1, initialState := None\<rparr>\<lparr>state := Obj 0, initialState := Some (Obj 0)\<rparr>
      = seen_world"
    by (simp add: seen_world_def)
  have p: "own_props (heap seen_world) (Obj 0) = [''before'' \<mapsto> Undefined, ''after'' \<mapsto> Num 1]"
    by (simp add: seen_world_def own_props_def)
  from createStoreImpl_seeds_both_snapshots [OF e] obtain w' where
    1: "createStoreImpl merge_code 7 seen_init \<lparr>cells = Map.empty, fresh = 0\<rparr> []
          = Some (Created \<lparr>api_setState = setState merge_code, api_getState = getState,
                     api_getInitialState = getInitialState, api_subscribe = subscribe\<rparr> w')"
    and 2: "getState w' = Obj 0" "getInitialState w' = Inr (Obj 0)"
      "count_list (drop (length ([] :: event list)) (trace w')) InitializerCalled = 1"
    by blast
  have "createStoreImpl merge_code 7 seen_init \<lparr>cells = Map.empty, fresh = 0\<rparr> []
          = Some (Created \<lparr>api_setState = setState merge_code, api_getState = getState,
                     api_getInitialState = getInitialState, api_subscribe = subscribe\<rparr> seen_world)"
    using e w by (simp add: createStoreImpl_def)
  with 1 have "w' = seen_world" by simp
  with e 1 2 p show ?thesis by simp
qed

text \<open>
  C9. Against the model of the persistence subsystem written from the specification:
  when the storage read or the deserialization fails with \<open>e\<close>, constructing the store
  returns the store (it does not throw), hydration is \<^verbatim>\<open>Completed(error)\<close>, the
  hydration-finished callbacks have been called once, with \<^verbatim>\<open>(undefined, e)\<close>, and the
  store is the store the initializer made, its snapshot unchanged. The same holds of any
  later hydration attempt.
\<close>

theorem failed_read_completes_hydration_with_error:
  assumes "createStoreImpl code n createState h tr = Some (Created api w)"
    and "getItem opts = Inl e" and "\<not> skipHydration opts"
  shows "persist_createStore code n createState h tr opts
           = Some (Inr \<lparr>pstore = w, status = Completed (Some e), finished = [(None, Some e)]\<rparr>)
       \<and> (\<forall>m ps. rehydrate code m opts ps
             = Some (ps\<lparr>status := Completed (Some e), finished := finished ps @ [(None, Some e)]\<rparr>))"
  using assms
  by (simp add: persist_createStore_def rehydrate_def hydration_failed_def)

theorem failed_read_completes_hydration_with_error_witness:
  "createStoreImpl counter_code 3 counter_init \<lparr>cells = Map.empty, fresh = 0\<rparr> []
     = Some (Created counter_api counter_world)
   \<and> getItem broken_options = Inl (Thrown (Str ''unreadable''))
   \<and> \<not> skipHydration broken_options
   \<and> persist_createStore counter_code 3 counter_init \<lparr>cells = Map.empty, fresh = 0\<rparr> [] broken_options
       = Some (Inr \<lparr>pstore = counter_world, status = Completed (Some (Thrown (Str ''unreadable''))),
                    finished = [(None, Some (Thrown (Str ''unreadable'')))]\<rparr>)
   \<and> getState counter_world = Obj 0"
proof -
  have c: "createStoreImpl counter_code 3 counter_init \<lparr>cells = Map.empty, fresh = 0\<rparr> []
     = Some (Created counter_api counter_world)"
    by (simp add: createStoreImpl_def numeral_3_eq_3 counter_init_def new_store_def new_object_def
        counter_api_def counter_world_def)
  have g: "getItem broken_options = Inl (Thrown (Str ''unreadable''))"
    and s: "\<not> skipHydration broken_options"
    by (simp_all add: broken_options_def)
  have st: "getState counter_world = Obj 0" by (simp add: getState_def counter_world_def)
  from failed_read_completes_hydration_with_error [OF c g s, THEN conjunct1] c g s st
  show ?thesis by (intro conjI)
qed

text \<open>
  C10. A merging \<^verbatim>\<open>setState\<close> (the candidate is an object \<open>c\<close> other than the snapshot,
  \<^verbatim>\<open>replace\<close> is omitted or \<^verbatim>\<open>false\<close>) assigns an object that did not exist before:
  it is neither the previous snapshot nor the candidate. Every object that existed when
  the candidate was compared, the previous snapshot and the candidate among them, has
  the properties it had, when the listeners are notified and in whatever the call comes
  to.
\<close>

theorem merging_setState_makes_a_new_object:
  assumes "candidate code n partial w = Some (Ret (Obj c) wc)"
    and "allocated (heap wc) (state wc)" and "c < fresh (heap wc)" and "Obj c \<noteq> state wc"
    and "replace \<noteq> Some True" and "w1 = assign_state (Obj c) replace wc"
  shows "setState code (Suc n) partial replace w = forEach code n 0 (state wc) w1
       \<and> state w1 = Obj (fresh (heap wc)) \<and> \<not> allocated (heap wc) (state w1)
       \<and> state w1 \<noteq> state wc \<and> state w1 \<noteq> Obj c
       \<and> heap_le (heap wc) (heap w1)
       \<and> own_props (heap w1) (state wc) = own_props (heap wc) (state wc)
       \<and> own_props (heap w1) (Obj c) = own_props (heap wc) (Obj c)
       \<and> (\<forall>out. setState code (Suc n) partial replace w = Some out \<longrightarrow>
             heap_le (heap wc) (heap (world_of out))
             \<and> own_props (heap (world_of out)) (state wc) = own_props (heap wc) (state wc)
             \<and> own_props (heap (world_of out)) (Obj c) = own_props (heap wc) (Obj c))"
proof -
  have merging: "\<not> (case replace of Some b \<Rightarrow> b | None \<Rightarrow> typeof (Obj c) \<noteq> ''object'' \<or> Obj c = Null)"
    using assms(5) by (cases replace) (simp_all add: typeof_def)
  have ac: "allocated (heap wc) (Obj c)" using assms(3) by (simp add: allocated_def)
  have s1: "state w1 = Obj (fresh (heap wc))"
    unfolding assms(6) using merging assms(2) ac by (rule assign_state_merge(1))
  have le1: "heap_le (heap wc) (heap w1)"
    unfolding assms(6) by (rule heap_le_assign_state)
  have run: "setState code (Suc n) partial replace w = forEach code n 0 (state wc) w1"
    using assms(4) by (simp add: setState_candidate assms(1,6) del: setState.simps)
  have fin: "heap_le (heap wc) (heap (world_of out))"
    if "setState code (Suc n) partial replace w = Some out" for out
  proof -
    from that run have "forEach code n 0 (state wc) w1 = Some out" by simp
    from run_heap_le [of code n, THEN conjunct2, THEN conjunct2, rule_format, OF this]
    have "heap_le (heap w1) (heap (world_of out))" .
    with le1 show ?thesis by (rule heap_le_trans)
  qed
  show ?thesis
  proof (intro conjI allI impI)
    show "setState code (Suc n) partial replace w = forEach code n 0 (state wc) w1"
      by (rule run)
    show "state w1 = Obj (fresh (heap wc))" by (rule s1)
    show "\<not> allocated (heap wc) (state w1)" by (simp add: s1 allocated_def)
    show "state w1 \<noteq> state wc" using assms(2) by (cases "state wc") (auto simp: s1 allocated_def)
    show "state w1 \<noteq> Obj c" using assms(3) by (simp add: s1)
    show "heap_le (heap wc) (heap w1)" by (rule le1)
    show "own_props (heap w1) (state wc) = own_props (heap wc) (state wc)"
      using le1 assms(2) by (rule own_props_heap_le)
    show "own_props (heap w1) (Obj c) = own_props (heap wc) (Obj c)"
      using le1 ac by (rule own_props_heap_le)
    show "heap_le (heap wc) (heap (world_of out))"
      if "setState code (Suc n) partial replace w = Some out" for out
      using that by (rule fin)
    show "own_props (heap (world_of out)) (state wc) = own_props (heap wc) (state wc)"
      if "setState code (Suc n) partial replace w = Some out" for out
      using fin[OF that] assms(2) by (rule own_props_heap_le)
    show "own_props (heap (world_of out)) (Obj c) = own_props (heap wc) (Obj c)"
      if "setState code (Suc n) partial replace w = Some out" for out
      using fin[OF that] ac by (rule own_props_heap_le)
  qed
qed

theorem merging_setState_makes_a_new_object_witness:
  "candidate merge_code 2 (Obj 1) merge_world = Some (Ret (Obj 1) merge_world)
   \<and> allocated (heap merge_world) (state merge_world) \<and> 1 < fresh (heap merge_world)
   \<and> Obj 1 \<noteq> state merge_world
   \<and> setState merge_code (Suc 2) (Obj 1) None merge_world = Some (Ret Undefined merged_world)
   \<and> state merged_world = Obj 2 \<and> state merge_world = Obj 0
   \<and> own_props (heap merged_world) (state merge_world) = own_props (heap merge_world) (state merge_world)
   \<and> own_props (heap merged_world) (Obj 1) = own_props (heap merge_world) (Obj 1)"
proof -
  have c: "candidate merge_code 2 (Obj 1) merge_world = Some (Ret (Obj 1) merge_world)"
    by (simp add: candidate_def)
  have h: "allocated (heap merge_world) (state merge_world)" "1 < fresh (heap merge_world)"
    "Obj 1 \<noteq> state merge_world" "None \<noteq> Some True"
    by (simp_all add: merge_world_def allocated_def)
  have r: "setState merge_code (Suc 2) (Obj 1) None merge_world = Some (Ret Undefined merged_world)"
    by (simp add: fuel_numeral Let_def merge_world_def merged_world_def merge_code_def assign_state_def
        new_object_def Object_assign_def assign_from_def own_props_def typeof_def)
  note law = merging_setState_makes_a_new_object [OF c h refl]
  note fin = law [THEN conjunct2, THEN conjunct2, THEN conjunct2, THEN conjunct2, THEN conjunct2,
      THEN conjunct2, THEN conjunct2, THEN conjunct2, rule_format, OF r]
  have s: "state merged_world = Obj 2" "state merge_world = Obj 0"
    by (simp_all add: merged_world_def merge_world_def)
  from fin have "own_props (heap merged_world) (state merge_world) = own_props (heap merge_world) (state merge_world)"
    "own_props (heap merged_world) (Obj 1) = own_props (heap merge_world) (Obj 1)"
    by simp_all
  with c h(1-3) r s show ?thesis by simp
qed

end
